theory Spec2Isabelle
  imports Main "HOL-Library.Word" "HOL-Library.Char_ord" "HOL-Library.List_Lexorder"
begin

unbundle bit_operations_syntax

section \<open>Symbol index of a PDB module\<close>

text \<open>
  The index entries of the PDB symbol module. \<open>size_t\<close> values are modelled as \<open>nat\<close>:
  the only arithmetic the index performs on them is the subtraction in \<open>make_cursor\<close>,
  which is shown never to go below zero, and the increments of the name counter.
\<close>

record Sym =
  name_idx :: nat
  offset :: nat

record Struc =
  name_idx :: nat
  size_bytes :: nat
  member_idx :: nat
  member_end :: nat

record Member =
  name_idx :: nat
  offset :: nat

text \<open>
  A \<open>std::string_view\<close> into \<open>data_strings\<close>: the pointer is the index of its first
  byte within the arena, together with the length.
\<close>

record string_view =
  sv_data :: nat
  sv_size :: nat

type_synonym StringData = "char list"
type_synonym Strings = "string_view list"
type_synonym Symbols = "Sym list"
type_synonym Strucs = "Struc list"
type_synonym Members = "Member list"

text \<open>
  The members of \<open>Pdb\<close>, without the trailing underscore of the source
  (\<open>data_strings\<close> is \<open>data_strings_\<close>, and so on). The header that defines \<open>fs::path\<close> is
  not part of the sources at hand, so the type of paths is the parameter \<open>'p\<close>, and the
  operations on paths that the module uses are parameters of the functions that use
  them.
\<close>

record 'p Pdb =
  filename :: 'p
  guid :: string
  data_strings :: StringData
  strings :: Strings
  symbols :: Symbols
  offsets_to_symbols :: Symbols
  strucs :: Strucs
  members :: Members

text \<open>
  What the external PDB parser hands to \<open>Pdb::setup\<close>: the global variables and the
  named types, each in the iteration order of its container. Only the fields that
  \<open>setup\<close> reads are kept.
\<close>

datatype PDBFileState =
  PDB_STATE_OK
  | PDB_STATE_ALREADY_LOADED
  | PDB_STATE_ERR_FILE_OPEN
  | PDB_STATE_INVALID_FILE
  | PDB_STATE_UNSUPPORTED_VERSION

datatype PDBTypeClass = PDBTYPE_STRUCT | PDBTYPE_OTHER

record PDBGlobalVariable =
  name :: string
  address :: nat

record PDBStructMember =
  name :: string
  offset :: nat

record PDBTypeDef =
  typ_class :: PDBTypeClass
  size_bytes :: nat
  struct_members :: "PDBStructMember list"

record PDBFile =
  global_variables :: "PDBGlobalVariable list"
  types_byname :: "(string \<times> PDBTypeDef) list"

definition NUL :: char where
  "NUL = CHR 0x00"

definition Pdb_new :: "'p \<Rightarrow> string \<Rightarrow> 'p Pdb" where
  "Pdb_new fname gid =
     \<lparr>filename = fname, guid = gid, data_strings = [], strings = [],
      symbols = [], offsets_to_symbols = [], strucs = [], members = []\<rparr>"

text \<open>
  \<open>std::upper_bound\<close> and \<open>std::lower_bound\<close> on a range partitioned by the
  comparison, as the C++ standard specifies them: the first position whose element
  compares greater than the value, and the first position whose element does not
  compare less than the value. Positions are indices; \<open>length vec\<close> is \<open>end\<close>.
\<close>

definition upper_bound :: "'a list \<Rightarrow> 'b \<Rightarrow> ('b \<Rightarrow> 'a \<Rightarrow> bool) \<Rightarrow> nat" where
  "upper_bound vec v cmp = length (takeWhile (\<lambda>e. \<not> cmp v e) vec)"

definition lower_bound :: "'a list \<Rightarrow> 'b \<Rightarrow> ('a \<Rightarrow> 'b \<Rightarrow> bool) \<Rightarrow> nat" where
  "lower_bound vec v cmp = length (takeWhile (\<lambda>e. cmp e v) vec)"

definition insert_ordered :: "Symbols \<Rightarrow> Sym \<Rightarrow> Symbols" where
  "insert_ordered vec item =
     (let pos = upper_bound vec item (\<lambda>a b. Sym.offset a < Sym.offset b)
      in take pos vec @ item # drop pos vec)"

definition emplace_string :: "'p Pdb \<Rightarrow> string \<Rightarrow> 'p Pdb" where
  "emplace_string pdb item = pdb\<lparr>data_strings := data_strings pdb @ item @ [NUL]\<rparr>"

text \<open>The body of the loop over the global variables; the state is the module and \<open>idx\<close>.\<close>

definition setup_global :: "'p Pdb \<times> nat \<Rightarrow> PDBGlobalVariable \<Rightarrow> 'p Pdb \<times> nat" where
  "setup_global st it =
     (case st of (pdb, idx) \<Rightarrow>
        let pdb1 = emplace_string pdb (PDBGlobalVariable.name it);
            sym = \<lparr>Sym.name_idx = idx, Sym.offset = address it\<rparr>;
            pdb2 = pdb1\<lparr>symbols := symbols pdb1 @ [sym]\<rparr>;
            pdb3 = pdb2\<lparr>offsets_to_symbols := insert_ordered (offsets_to_symbols pdb2) sym\<rparr>
        in (pdb3, idx + 1))"

text \<open>The body of the inner loop over the members of one structure.\<close>

definition setup_member :: "'p Pdb \<times> nat \<Rightarrow> PDBStructMember \<Rightarrow> 'p Pdb \<times> nat" where
  "setup_member st member =
     (case st of (pdb, idx) \<Rightarrow>
        let pdb1 = emplace_string pdb (PDBStructMember.name member);
            pdb2 = pdb1\<lparr>members := members pdb1 @
                      [\<lparr>Member.name_idx = idx, Member.offset = PDBStructMember.offset member\<rparr>]\<rparr>
        in (pdb2, idx + 1))"

text \<open>The body of the loop over \<open>types_byname\<close>; types that are not structures are skipped.\<close>

definition setup_type :: "'p Pdb \<times> nat \<Rightarrow> string \<times> PDBTypeDef \<Rightarrow> 'p Pdb \<times> nat" where
  "setup_type st it =
     (case st of (pdb, idx) \<Rightarrow>
        if typ_class (snd it) \<noteq> PDBTYPE_STRUCT then (pdb, idx)
        else
          let pdb1 = emplace_string pdb (fst it);
              name_idx = idx;
              first_idx = length (members pdb1);
              (pdb2, idx2) = foldl setup_member (pdb1, idx + 1) (struct_members (snd it));
              last_idx = length (members pdb2)
          in (pdb2\<lparr>strucs := strucs pdb2 @
                [\<lparr>Struc.name_idx = name_idx, Struc.size_bytes = PDBTypeDef.size_bytes (snd it),
                  member_idx = first_idx, member_end = last_idx\<rparr>]\<rparr>, idx2))"

text \<open>
  \<open>std::string_view{&data_strings[i]}\<close>: the view starts at \<open>i\<close> and runs up to the
  next zero byte. Every \<open>emplace_string\<close> ends the arena with a zero byte, so the scan
  stays inside the arena.
\<close>

definition string_view_at :: "StringData \<Rightarrow> nat \<Rightarrow> string_view" where
  "string_view_at arena i =
     \<lparr>sv_data = i, sv_size = length (takeWhile (\<lambda>c. c \<noteq> NUL) (drop i arena))\<rparr>"

function setup_strings :: "StringData \<Rightarrow> nat \<Rightarrow> Strings \<Rightarrow> Strings" where
  "setup_strings arena i strs =
     (if i < length arena
      then let strs' = strs @ [string_view_at arena i]
           in setup_strings arena (i + sv_size (last strs') + 1) strs'
      else strs)"
  by pat_completeness auto
termination
  by (relation "measure (\<lambda>(arena, i, strs). length arena - i)") auto

declare setup_strings.simps [simp del]

text \<open>The characters a view denotes.\<close>

definition sv_chars :: "StringData \<Rightarrow> string_view \<Rightarrow> string" where
  "sv_chars arena sv = take (sv_size sv) (drop (sv_data sv) arena)"

text \<open>\<open>strings[idx]\<close> read as characters.\<close>

definition string_at :: "'p Pdb \<Rightarrow> nat \<Rightarrow> string" where
  "string_at pdb idx = sv_chars (data_strings pdb) (strings pdb ! idx)"

text \<open>
  \<open>sort_by_name\<close>: \<open>std::sort\<close> with the names as keys. \<open>std::sort\<close> leaves the order of
  entries with equal names open; the model takes the stable order.
\<close>

definition sort_by_name :: "('a \<Rightarrow> nat) \<Rightarrow> 'a list \<Rightarrow> StringData \<Rightarrow> Strings \<Rightarrow> 'a list" where
  "sort_by_name name_idx_of vec arena strs =
     sort_key (\<lambda>a. sv_chars arena (strs ! name_idx_of a)) vec"

text \<open>The part of \<open>Pdb::setup\<close> that follows a successful load of the file.\<close>

definition setup_index :: "PDBFile \<Rightarrow> 'p Pdb \<Rightarrow> 'p Pdb" where
  "setup_index pdb_file this =
     (let (p1, idx1) = foldl setup_global (this, 0) (global_variables pdb_file);
          (p2, idx2) = foldl setup_type (p1, idx1) (types_byname pdb_file);
          p3 = p2\<lparr>strings := setup_strings (data_strings p2) 0 (strings p2)\<rparr>;
          p4 = p3\<lparr>symbols := sort_by_name Sym.name_idx (symbols p3) (data_strings p3) (strings p3)\<rparr>;
          p5 = p4\<lparr>strucs := sort_by_name Struc.name_idx (strucs p4) (data_strings p4) (strings p4)\<rparr>
      in p5)"

text \<open>
  \<open>Pdb::setup\<close>. The parser is a parameter: \<open>load_pdb_file\<close> maps a file name to the
  parser's state and, when that is \<open>PDB_STATE_OK\<close>, the parsed contents. The file name
  it is given is \<open>filename_.generic_string()\<close>; \<open>generic_string\<close> is the parameter for
  that member function of \<open>fs::path\<close>.
\<close>

definition Pdb_setup ::
  "('p \<Rightarrow> string) \<Rightarrow> (string \<Rightarrow> PDBFileState \<times> PDBFile) \<Rightarrow> 'p Pdb \<Rightarrow> bool \<times> 'p Pdb" where
  "Pdb_setup generic_string load_pdb_file this =
     (case load_pdb_file (generic_string (filename this)) of
        (err, pdb_file) \<Rightarrow>
          if err \<noteq> PDB_STATE_OK then (False, this)
          else (True, setup_index pdb_file this))"

text \<open>A module as \<open>make_pdb\<close> hands it out: constructed, then set up from a parsed file.\<close>

definition built :: "'p \<Rightarrow> string \<Rightarrow> PDBFile \<Rightarrow> 'p Pdb" where
  "built fname gid pdb_file = setup_index pdb_file (Pdb_new fname gid)"

subsection \<open>Lookups\<close>

text \<open>
  \<open>make_cursor\<close> on a range given by its elements and the positions \<open>it\<close> and \<open>it_end\<close>.
  The subtraction is the unsigned one of the source; the callers only reach it with
  \<open>it->offset \<le> off\<close>.
\<close>

definition make_cursor :: "'p Pdb \<Rightarrow> Symbols \<Rightarrow> nat \<Rightarrow> nat \<Rightarrow> nat \<Rightarrow> (string \<times> nat) option" where
  "make_cursor p vec it it_end off =
     (if it = it_end then None
      else Some (string_at p (Sym.name_idx (vec ! it)), off - Sym.offset (vec ! it)))"

text \<open>
  \<open>find_symbol\<close>. The reverse range \<open>rbegin .. rend\<close> of the first branch is the
  reversed vector with positions \<open>0\<close> and its length.
\<close>

definition find_symbol :: "'p Pdb \<Rightarrow> nat \<Rightarrow> (string \<times> nat) option" where
  "find_symbol this off =
     (let vec = offsets_to_symbols this;
          it = lower_bound vec off (\<lambda>a b. Sym.offset a < b);
          it_end = length vec
      in if it = it_end then make_cursor this (rev vec) 0 (length (rev vec)) off
         else if Sym.offset (vec ! it) = off then make_cursor this vec it it_end off
         else if it = 0 then None
         else make_cursor this vec (it - 1) it_end off)"

datatype walk_e = walk_stop | walk_next

text \<open>
  \<open>list_symbols\<close>: the callback is a function of its own state; the model also returns
  the calls made, in order, so that the enumeration can be observed.
\<close>

fun list_symbols_loop ::
  "'p Pdb \<Rightarrow> (string \<Rightarrow> nat \<Rightarrow> 's \<Rightarrow> walk_e \<times> 's) \<Rightarrow> Symbols \<Rightarrow> 's \<Rightarrow> 's \<times> (string \<times> nat) list" where
  "list_symbols_loop this on_sym [] s = (s, [])"
| "list_symbols_loop this on_sym (it # rest) s =
     (case on_sym (string_at this (Sym.name_idx it)) (Sym.offset it) s of
        (walk_stop, s') \<Rightarrow> (s', [(string_at this (Sym.name_idx it), Sym.offset it)])
      | (walk_next, s') \<Rightarrow>
          (case list_symbols_loop this on_sym rest s' of
             (s'', calls) \<Rightarrow> (s'', (string_at this (Sym.name_idx it), Sym.offset it) # calls)))"

definition list_symbols ::
  "'p Pdb \<Rightarrow> (string \<Rightarrow> nat \<Rightarrow> 's \<Rightarrow> walk_e \<times> 's) \<Rightarrow> 's \<Rightarrow> bool \<times> 's \<times> (string \<times> nat) list" where
  "list_symbols this on_sym s =
     (case list_symbols_loop this on_sym (offsets_to_symbols this) s of
        (s', calls) \<Rightarrow> (True, s', calls))"

text \<open>
  \<open>binary_search(strings, vec, item)\<close>. The views of \<open>strings\<close> point into the arena,
  which the model passes along; \<open>name_idx_of\<close> is the \<open>name_idx\<close> member of the
  element type. Views and strings compare by their characters, bytes unsigned.
\<close>

definition binary_search ::
  "StringData \<Rightarrow> Strings \<Rightarrow> ('a \<Rightarrow> nat) \<Rightarrow> 'a list \<Rightarrow> string \<Rightarrow> 'a option" where
  "binary_search arena strs name_idx_of vec item =
     (let it = lower_bound vec item (\<lambda>a b. sv_chars arena (strs ! name_idx_of a) < b)
      in if it = length vec then None
         else if sv_chars arena (strs ! name_idx_of (vec ! it)) \<noteq> item then None
         else Some (vec ! it))"

definition symbol_offset :: "'p Pdb \<Rightarrow> string \<Rightarrow> nat option" where
  "symbol_offset this symbol =
     (case binary_search (data_strings this) (strings this) Sym.name_idx (symbols this) symbol of
        None \<Rightarrow> None
      | Some s \<Rightarrow> Some (Sym.offset s))"

text \<open>\<open>struc_names\<close> and \<open>struc_members\<close>: the views handed to the callback, in order.\<close>

definition struc_names :: "'p Pdb \<Rightarrow> string_view list" where
  "struc_names this = map (\<lambda>struc. strings this ! Struc.name_idx struc) (strucs this)"

definition struc_size :: "'p Pdb \<Rightarrow> string \<Rightarrow> nat option" where
  "struc_size this struc =
     (case binary_search (data_strings this) (strings this) Struc.name_idx (strucs this) struc of
        None \<Rightarrow> None
      | Some s \<Rightarrow> Some (Struc.size_bytes s))"

definition struc_members :: "'p Pdb \<Rightarrow> string \<Rightarrow> string_view list" where
  "struc_members this struc =
     (case binary_search (data_strings this) (strings this) Struc.name_idx (strucs this) struc of
        None \<Rightarrow> []
      | Some s \<Rightarrow>
          map (\<lambda>idx. strings this ! Member.name_idx (members this ! idx))
            [member_idx s ..< member_end s])"

text \<open>
  \<open>tolower\<close> in the C locale, and \<open>strncasecmp\<close> (\<open>_strnicmp\<close>): at most \<open>n\<close> characters
  are compared, lower-cased, and the comparison stops after a zero byte. Both arguments
  are followed by a zero byte in memory, which an exhausted list stands for.
\<close>

definition tolower :: "char \<Rightarrow> char" where
  "tolower c =
     (if (0x41::nat) \<le> of_char c \<and> of_char c \<le> (0x5A::nat)
      then char_of (of_char c + (0x20::nat)) else c)"

fun strnicmp :: "string \<Rightarrow> string \<Rightarrow> nat \<Rightarrow> int" where
  "strnicmp a b 0 = 0"
| "strnicmp a b (Suc n) =
     (let ca = tolower (case a of [] \<Rightarrow> NUL | x # _ \<Rightarrow> x);
          cb = tolower (case b of [] \<Rightarrow> NUL | y # _ \<Rightarrow> y)
      in if ca \<noteq> cb then int (of_char ca) - int (of_char cb)
         else if ca = NUL then 0
         else strnicmp (tl a) (tl b) n)"

definition is_lowercase_equal :: "string \<Rightarrow> string \<Rightarrow> bool" where
  "is_lowercase_equal a b =
     (if length a \<noteq> length b then False else strnicmp a b (length a) = 0)"

text \<open>
  The loop of \<open>member_offset\<close> runs while \<open>idx != member_end\<close>, so it only ends when it
  reaches \<open>member_end\<close> from below or finds a member; not returning is the value \<open>None\<close>.
\<close>

partial_function (option) member_offset_loop ::
  "'p Pdb \<Rightarrow> string \<Rightarrow> nat \<Rightarrow> nat \<Rightarrow> nat option option" where
  "member_offset_loop this member idx idx_end =
     (if idx \<noteq> idx_end
      then (let m = members this ! idx
            in if is_lowercase_equal member (string_at this (Member.name_idx m))
               then Some (Some (Member.offset m))
               else member_offset_loop this member (idx + 1) idx_end)
      else Some None)"

declare member_offset_loop.simps [code]

definition member_offset :: "'p Pdb \<Rightarrow> string \<Rightarrow> string \<Rightarrow> nat option option" where
  "member_offset this struc member =
     (case binary_search (data_strings this) (strings this) Struc.name_idx (strucs this) struc of
        None \<Rightarrow> Some None
      | Some s \<Rightarrow> member_offset_loop this member (member_idx s) (member_end s))"

subsection \<open>Locating the symbol file\<close>

text \<open>
  The operations of \<open>fs::path\<close> that \<open>make_pdb\<close> and \<open>Pdb::setup\<close> use: the
  construction of a path from a string (\<open>fs::path(path)\<close>, and the implicit conversion
  of the right operands of \<open>/\<close>), \<open>operator/\<close>, and \<open>generic_string\<close>. Nothing is fixed
  about them.
\<close>

record 'p fs =
  fs_path :: "string \<Rightarrow> 'p"
  fs_div :: "'p \<Rightarrow> 'p \<Rightarrow> 'p"
  fs_generic_string :: "'p \<Rightarrow> string"

text \<open>
  \<open>symbols::make_pdb\<close>. The path operations, the environment and the parser are
  parameters; \<open>None\<close> is \<open>nullptr\<close>.
\<close>

definition make_pdb ::
  "'p fs \<Rightarrow> (string \<Rightarrow> string option) \<Rightarrow> (string \<Rightarrow> PDBFileState \<times> PDBFile) \<Rightarrow>
   string \<Rightarrow> string \<Rightarrow> 'p Pdb option" where
  "make_pdb fs getenv load_pdb_file module gid =
     (case getenv ''_NT_SYMBOL_PATH'' of
        None \<Rightarrow> None
      | Some path \<Rightarrow>
          let ptr = Pdb_new
                      (fs_div fs (fs_div fs (fs_div fs (fs_path fs path) (fs_path fs module))
                                    (fs_path fs gid)) (fs_path fs module)) gid;
              (ok, ptr') = Pdb_setup (fs_generic_string fs) load_pdb_file ptr
          in if \<not> ok then None else Some ptr')"

text \<open>\<open>Pdb::id\<close>.\<close>

definition Pdb_id :: "'p Pdb \<Rightarrow> string" where
  "Pdb_id this = guid this"

subsection \<open>Identifying the PDB of a loaded image\<close>

type_synonym byte = "8 word"
type_synonym u64 = "64 word"

record PdbCtx =
  guid :: string
  name :: string

text \<open>
  \<open>std::isprint\<close> in the C locale, and \<open>read_pdb_name\<close>: the bytes between \<open>ptr\<close> and
  \<open>end\<close> as a string, or nothing when one of them is not printable.
\<close>

definition isprint :: "byte \<Rightarrow> bool" where
  "isprint c = (0x20 \<le> c \<and> c \<le> 0x7E)"

definition read_pdb_name :: "byte list \<Rightarrow> string option" where
  "read_pdb_name bytes =
     (if list_all isprint bytes then Some (map (\<lambda>b. char_of (unat b)) bytes) else None)"

definition rsds_magic :: "byte list" where
  "rsds_magic = [0x52, 0x53, 0x44, 0x53]"

text \<open>
  \<open>std::search\<close> with the pattern's searcher: the position of the first occurrence of
  the pattern in the range, or the end of the range (its length) when there is none.
\<close>

fun search :: "byte list \<Rightarrow> byte list \<Rightarrow> nat" where
  "search [] pat = 0"
| "search (x # xs) pat =
     (if take (length pat) (x # xs) = pat then 0 else Suc (search xs pat))"

text \<open>
  \<open>memchr(ptr, c, n)\<close>, where \<open>mem\<close> holds the bytes of memory from \<open>ptr\<close> on, at
  least \<open>n\<close> of them: the position of the first occurrence of \<open>c\<close> among the first
  \<open>n\<close> bytes, or nothing (the null pointer) when there is none.
\<close>

definition memchr :: "byte list \<Rightarrow> byte \<Rightarrow> nat \<Rightarrow> nat option" where
  "memchr mem c n =
     (let k = length (takeWhile (\<lambda>b. b \<noteq> c) (take n mem))
      in if k < length (take n mem) then Some k else None)"

text \<open>
  Modelled from the spec: the helpers of \<open>endian.hpp\<close> and \<open>utils/hex.hpp\<close> are not part
  of the sources at hand. \<open>read_le32\<close> and \<open>read_le16\<close> read a little-endian value from
  the first bytes of their argument, \<open>write_be32\<close> and \<open>write_be16\<close> give the bytes of a
  value in big-endian order, and \<open>hex_convert\<close> renders every byte as two characters of
  the given alphabet, the high nibble first.
\<close>

definition read_le32 :: "byte list \<Rightarrow> 32 word" where
  "read_le32 p =
     ucast (p ! 0) OR push_bit 8 (ucast (p ! 1)) OR push_bit 16 (ucast (p ! 2))
       OR push_bit 24 (ucast (p ! 3))"

definition read_le16 :: "byte list \<Rightarrow> 16 word" where
  "read_le16 p = ucast (p ! 0) OR push_bit 8 (ucast (p ! 1))"

definition write_be32 :: "32 word \<Rightarrow> byte list" where
  "write_be32 v = [ucast (drop_bit 24 v), ucast (drop_bit 16 v), ucast (drop_bit 8 v), ucast v]"

definition write_be16 :: "16 word \<Rightarrow> byte list" where
  "write_be16 v = [ucast (drop_bit 8 v), ucast v]"

definition chars_upper :: string where
  "chars_upper = ''0123456789ABCDEF''"

definition hex_convert :: "string \<Rightarrow> byte list \<Rightarrow> string" where
  "hex_convert chars src =
     concat (map (\<lambda>b. [chars ! unat (drop_bit 4 b), chars ! unat (b AND 0x0F)]) src)"

text \<open>\<open>std::to_string\<close> on an unsigned value: its decimal digits, without leading zeros.\<close>

function to_string :: "nat \<Rightarrow> string" where
  "to_string n =
     (if n < 10 then [char_of (0x30 + n)]
      else to_string (n div 10) @ [char_of (0x30 + n mod 10)])"
  by pat_completeness auto
termination
  by (relation "measure (\<lambda>n. n)") auto

declare to_string.simps [simp del]

datatype read_pdb_failure =
  rsds_not_found | too_small_for_header | missing_null_byte

text \<open>
  \<open>read_pdb\<close>. The argument \<open>src\<close> holds the bytes from \<open>src\<close> to \<open>end\<close>. The scan
  of \<open>memchr\<close> for the end of the name starts 24 bytes into the header and covers
  \<open>size\<close> bytes, the distance from the start of the header to the end of the buffer.
  It therefore covers the 24 bytes of memory that follow the buffer, and \<open>read_pdb_name\<close>
  reads the name up to the zero byte found, inside the buffer or past it. \<open>beyond i\<close>
  is the byte of memory at distance \<open>i\<close> past the end of the buffer. The loop continues
  with the bytes after the magic just found when the name of a header is not printable.
\<close>

function read_pdb :: "(nat \<Rightarrow> byte) \<Rightarrow> byte list \<Rightarrow> read_pdb_failure + PdbCtx" where
  "read_pdb beyond src =
     (let rsds = search src rsds_magic
      in if rsds = length src then Inl rsds_not_found
         else
           let sz = length src - rsds
           in if sz < 4 + 16 + 4 + 2 then Inl too_small_for_header
              else
                let memory = src @ map beyond [0 ..< 4 + 16 + 4]
                in (case memchr (drop (rsds + (4 + 16 + 4)) memory) 0x00 sz of
                      None \<Rightarrow> Inl missing_null_byte
                    | Some name_len \<Rightarrow>
                        let hdr = drop rsds src;
                            guid_bytes = write_be32 (read_le32 (drop (4 + 0) hdr))
                                       @ write_be16 (read_le16 (drop (4 + 4) hdr))
                                       @ write_be16 (read_le16 (drop (4 + 6) hdr))
                                       @ take 8 (drop (4 + 8) hdr);
                            strguid = hex_convert chars_upper guid_bytes;
                            age = read_le32 (drop (4 + 16) hdr);
                            nm = read_pdb_name (take name_len (drop (rsds + (4 + 16 + 4)) memory))
                        in (case nm of
                              Some n \<Rightarrow> Inr \<lparr>PdbCtx.guid = strguid @ to_string (unat age), PdbCtx.name = n\<rparr>
                            | None \<Rightarrow> read_pdb beyond (drop (rsds + 1) src))))"
  by pat_completeness auto
termination
  by (relation "measure (\<lambda>(beyond, src). length src)") auto

declare read_pdb.simps [simp del]

record span_t =
  addr :: u64
  span_size :: nat

record Identity =
  name :: string
  id_ :: string

text \<open>
  \<open>symbols::identify_pdb\<close>. The debug-directory lookup \<open>pe::find_debug_codeview\<close> and
  the reader's \<open>read_all\<close> are parameters; \<open>read_all\<close> gives the bytes read, as many as
  asked for, or nothing. \<open>beyond\<close> gives the memory that follows the storage of
  \<open>buffer\<close>.
\<close>

definition identify_pdb ::
  "(span_t \<Rightarrow> span_t option) \<Rightarrow> (u64 \<Rightarrow> nat \<Rightarrow> byte list option) \<Rightarrow> (nat \<Rightarrow> byte) \<Rightarrow>
   span_t \<Rightarrow> Identity option" where
  "identify_pdb find_debug_codeview read_all beyond span =
     (let debug = find_debug_codeview span;
          span_read = (case debug of Some d \<Rightarrow> d | None \<Rightarrow> span)
      in case read_all (addr span_read) (span_size span_read) of
           None \<Rightarrow> None
         | Some buffer \<Rightarrow>
             (case read_pdb beyond (take (span_size span_read) buffer) of
                Inl _ \<Rightarrow> None
              | Inr pdb \<Rightarrow> Some \<lparr>Identity.name = PdbCtx.name pdb, id_ = PdbCtx.guid pdb\<rparr>))"

section \<open>Register access\<close>

text \<open>
  \<open>registers::read\<close> and \<open>registers::read_msr\<close>. The channel functions
  \<open>fdp::read_register\<close> and \<open>fdp::read_msr_register\<close>, applied to the shared memory of
  the core, are parameters: they give the value read, or nothing when the read fails.
\<close>

definition registers_read :: "('reg \<Rightarrow> u64 option) \<Rightarrow> 'reg \<Rightarrow> u64" where
  "registers_read read_register reg =
     (let ret = read_register reg in case ret of Some v \<Rightarrow> v | None \<Rightarrow> 0)"

definition registers_read_msr :: "('msr \<Rightarrow> u64 option) \<Rightarrow> 'msr \<Rightarrow> u64" where
  "registers_read_msr read_msr_register reg =
     (let ret = read_msr_register reg in case ret of Some v \<Rightarrow> v | None \<Rightarrow> 0)"

text \<open>
  \<open>registers::write\<close> and \<open>registers::write_msr\<close> hand the channel's answer through.
\<close>

definition registers_write :: "('reg \<Rightarrow> u64 \<Rightarrow> bool) \<Rightarrow> 'reg \<Rightarrow> u64 \<Rightarrow> bool" where
  "registers_write write_register reg v = write_register reg v"

definition registers_write_msr :: "('msr \<Rightarrow> u64 \<Rightarrow> bool) \<Rightarrow> 'msr \<Rightarrow> u64 \<Rightarrow> bool" where
  "registers_write_msr write_msr_register reg v = write_msr_register reg v"

section \<open>The heap sanitizer plugin\<close>

text \<open>
  \<open>thread_t\<close> is compared and hashed through its \<open>id\<close> alone, which is the one member
  kept (as \<open>thread_id\<close>). With it the equality of the records below is the
  \<open>operator==\<close> of the source.
\<close>

record thread_t =
  thread_id :: u64

record ctx_t =
  addr :: u64
  thread :: thread_t

record heap_ctx_t =
  HeapHandle :: u64
  ctx :: ctx_t

datatype reg_e = FDP_RAX_REGISTER | FDP_RSP_REGISTER

text \<open>
  The tasks handed to \<open>set_breakpoint\<close> are the three closures of the source, with the
  values they capture: the thread, the return address, and for the allocating
  functions the heap handle and the size asked for.
\<close>

datatype Task =
  ret_RtlpAllocateHeapInternal thread_t u64 u64 u64
  | ret_RtlpReAllocateHeapInternal thread_t u64 u64 u64
  | ret_RtlSizeHeap thread_t u64

text \<open>A \<open>core::Breakpoint\<close>: the address, the thread filter and the task it was set with.\<close>

record Breakpoint =
  bp_addr :: u64
  bp_thread :: thread_t
  bp_task :: Task

type_synonym RetCtx = "ctx_t \<Rightarrow> Breakpoint option"
type_synonym HeapCtx = "heap_ctx_t \<Rightarrow> u64 option"

text \<open>
  The members of \<open>FdpSan::Data\<close> that the callbacks change. The core they act on is the
  guest below, passed along explicitly.
\<close>

record FdpSanData =
  threads_allocating :: "u64 set"
  threads_reallocating :: "u64 set"
  heap_datas :: HeapCtx
  ret_ctxs :: RetCtx

text \<open>
  What the plugin reaches of the paused guest through the core: the current thread as
  the OS layer resolves it, the arguments of the intercepted call with \<open>write_arg\<close>,
  and the registers as the channel reads them (nothing when a read fails).
  \<open>write_arg_ok\<close> and \<open>write_reg_ok\<close> say whether the writes go through.
\<close>

record guest =
  thread_current :: "thread_t option"
  args :: "nat \<Rightarrow> u64"
  write_arg_ok :: bool
  regs :: "reg_e \<Rightarrow> u64 option"
  write_reg_ok :: bool

text \<open>
  The reader of the target process is a local variable of the constructor of
  \<open>FdpSan\<close>, and the entry callbacks capture it by reference. A reference to it is
  either alive, and then reads a 64-bit value of the memory of the process at an
  address or nothing, or dangling, once the constructor has returned and the local
  is destroyed. The callbacks run on breakpoints, after the constructor has
  returned: the reference they hold is \<open>captured_reader\<close>.
\<close>

datatype reader_ref = live_reader "u64 \<Rightarrow> u64 option" | dangling_reader

definition captured_reader :: reader_ref where
  "captured_reader = dangling_reader"

text \<open>
  A read through a dangling reference has no defined behaviour. The model makes that
  an outcome of its own: a computation either gives a value or reaches undefined
  behaviour.
\<close>

datatype 'a behaviour = undefined_behaviour | returned 'a

definition add_size :: u64 where
  "add_size = 0x20"

definition half_add_size :: u64 where
  "half_add_size = add_size div 2"

definition os_write_arg :: "guest \<Rightarrow> nat \<Rightarrow> u64 \<Rightarrow> bool \<times> guest" where
  "os_write_arg g arg_index v =
     (if write_arg_ok g then (True, g\<lparr>args := (args g)(arg_index := v)\<rparr>) else (False, g))"

text \<open>\<open>regs.read\<close> is \<open>registers::read\<close> on the channel of the core.\<close>

definition regs_read :: "guest \<Rightarrow> reg_e \<Rightarrow> u64" where
  "regs_read g reg = registers_read (regs g) reg"


text \<open>\<open>emplace\<close> of \<open>std::unordered_map\<close>: an existing entry is kept.\<close>

definition emplace :: "('k \<Rightarrow> 'v option) \<Rightarrow> 'k \<Rightarrow> 'v \<Rightarrow> ('k \<Rightarrow> 'v option)" where
  "emplace m k v = (if m k = None then m(k \<mapsto> v) else m)"

definition is_present :: "u64 set \<Rightarrow> thread_t \<Rightarrow> bool" where
  "is_present u t = (thread_id t \<in> u)"

definition change_Size :: "guest \<Rightarrow> nat \<Rightarrow> u64 \<Rightarrow> bool \<times> guest" where
  "change_Size g arg_index sz = os_write_arg g arg_index sz"

definition change_BaseAddress :: "guest \<Rightarrow> nat \<Rightarrow> u64 \<Rightarrow> bool \<times> guest" where
  "change_BaseAddress g arg_index a = os_write_arg g arg_index a"


definition get_return_address :: "guest \<Rightarrow> reader_ref \<Rightarrow> u64 option behaviour" where
  "get_return_address g reader =
     (let rsp = regs_read g FDP_RSP_REGISTER
      in if rsp = 0 then returned None
         else (case reader of
                 live_reader read_memory \<Rightarrow> returned (read_memory rsp)
               | dangling_reader \<Rightarrow> undefined_behaviour))"

definition is_addr_tracked :: "FdpSanData \<Rightarrow> heap_ctx_t \<Rightarrow> bool" where
  "is_addr_tracked d heap_ctx = (heap_datas d heap_ctx \<noteq> None)"



definition set_callback_on_return :: "u64 \<Rightarrow> thread_t \<Rightarrow> Task \<Rightarrow> Breakpoint" where
  "set_callback_on_return a t on_ret = \<lparr>bp_addr = a, bp_thread = t, bp_task = on_ret\<rparr>"


text \<open>
  The entry callbacks registered by the constructor of \<open>FdpSan\<close>. Each gives the value
  the callback returns, and the plugin data and the guest as it leaves them. The
  callbacks that read the return address take the reference to the reader they
  captured; when the read through it is undefined, the first component says so, and
  the other two are the plugin data and the guest when the callback reached that
  read.
\<close>

definition on_RtlpAllocateHeapInternal ::
  "reader_ref \<Rightarrow> FdpSanData \<Rightarrow> guest \<Rightarrow> u64 \<Rightarrow> u64 \<Rightarrow> int behaviour \<times> FdpSanData \<times> guest" where
  "on_RtlpAllocateHeapInternal reader d g heap_handle sz =
     (case thread_current g of
        None \<Rightarrow> (returned 0, d, g)
      | Some t \<Rightarrow>
          if is_present (threads_reallocating d) t \<or> is_present (threads_allocating d) t
          then (returned 0, d, g)
          else
            let d1 = d\<lparr>threads_allocating := insert (thread_id t) (threads_allocating d)\<rparr>;
                (ok, g1) = change_Size g 1 (sz + add_size)
            in if \<not> ok then (returned 0, d1, g1)
               else
                 (case get_return_address g1 reader of
                   undefined_behaviour \<Rightarrow> (undefined_behaviour, d1, g1)
                 | returned None \<Rightarrow> (returned 0, d1, g1)
                 | returned (Some return_addr) \<Rightarrow>
                     let bp = set_callback_on_return return_addr t
                                (ret_RtlpAllocateHeapInternal t return_addr heap_handle sz)
                     in (returned 0,
                         d1\<lparr>ret_ctxs := emplace (ret_ctxs d1) \<lparr>addr = return_addr, thread = t\<rparr> bp\<rparr>, g1)))"

definition on_RtlpReAllocateHeapInternal ::
  "reader_ref \<Rightarrow> FdpSanData \<Rightarrow> guest \<Rightarrow> u64 \<Rightarrow> u64 \<Rightarrow> u64 \<Rightarrow> int behaviour \<times> FdpSanData \<times> guest" where
  "on_RtlpReAllocateHeapInternal reader d g heap_handle base_address sz =
     (case thread_current g of
        None \<Rightarrow> (returned 0, d, g)
      | Some t \<Rightarrow>
          let d1 = d\<lparr>threads_reallocating := insert (thread_id t) (threads_reallocating d)\<rparr>;
              c = \<lparr>HeapHandle = heap_handle, ctx = \<lparr>addr = base_address, thread = t\<rparr>\<rparr>;
              (ok1, d2, g1) =
                 (if is_addr_tracked d1 c
                  then let (ok, g') = change_BaseAddress g 2 (base_address - half_add_size)
                       in if \<not> ok then (False, d1, g')
                          else (True, d1\<lparr>heap_datas := (heap_datas d1)(c := None)\<rparr>, g')
                  else (True, d1, g))
          in if \<not> ok1 then (returned 0, d2, g1)
             else
               let (ok, g2) = change_Size g1 3 (sz + add_size)
               in if \<not> ok then (returned 0, d2, g2)
                  else
                    (case get_return_address g2 reader of
                      undefined_behaviour \<Rightarrow> (undefined_behaviour, d2, g2)
                    | returned None \<Rightarrow> (returned 0, d2, g2)
                    | returned (Some return_addr) \<Rightarrow>
                        let bp = set_callback_on_return return_addr t
                                   (ret_RtlpReAllocateHeapInternal t return_addr heap_handle sz)
                        in (returned 0,
                            d2\<lparr>ret_ctxs := emplace (ret_ctxs d2) \<lparr>addr = return_addr, thread = t\<rparr> bp\<rparr>, g2)))"

definition on_RtlFreeHeap ::
  "FdpSanData \<Rightarrow> guest \<Rightarrow> u64 \<Rightarrow> u64 \<Rightarrow> bool \<times> FdpSanData \<times> guest" where
  "on_RtlFreeHeap d g heap_handle base_address =
     (case thread_current g of
        None \<Rightarrow> (False, d, g)
      | Some t \<Rightarrow>
          let c = \<lparr>HeapHandle = heap_handle, ctx = \<lparr>addr = base_address, thread = t\<rparr>\<rparr>
          in if is_addr_tracked d c then (True, d, g)
             else
               let (ok, g1) = change_BaseAddress g 2 (base_address - half_add_size)
               in if \<not> ok then (False, d, g1)
                  else (True, d\<lparr>heap_datas := (heap_datas d)(c := None)\<rparr>, g1))"

definition on_RtlSizeHeap ::
  "reader_ref \<Rightarrow> FdpSanData \<Rightarrow> guest \<Rightarrow> u64 \<Rightarrow> u64 \<Rightarrow> int behaviour \<times> FdpSanData \<times> guest" where
  "on_RtlSizeHeap reader d g heap_handle base_address =
     (case thread_current g of
        None \<Rightarrow> (returned 0, d, g)
      | Some t \<Rightarrow>
          let c = \<lparr>HeapHandle = heap_handle, ctx = \<lparr>addr = base_address, thread = t\<rparr>\<rparr>
          in if is_addr_tracked d c then (returned 0, d, g)
             else
               let (ok, g1) = change_BaseAddress g 2 (base_address - half_add_size)
               in if \<not> ok then (returned 0, d, g1)
                  else
                    (case get_return_address g1 reader of
                      undefined_behaviour \<Rightarrow> (undefined_behaviour, d, g1)
                    | returned None \<Rightarrow> (returned 0, d, g1)
                    | returned (Some return_addr) \<Rightarrow>
                        let bp = set_callback_on_return return_addr t (ret_RtlSizeHeap t return_addr)
                        in (returned 1,
                            d\<lparr>ret_ctxs := emplace (ret_ctxs d) \<lparr>addr = return_addr, thread = t\<rparr> bp\<rparr>, g1)))"

definition on_RtlSetUserValueHeap ::
  "FdpSanData \<Rightarrow> guest \<Rightarrow> u64 \<Rightarrow> u64 \<Rightarrow> bool \<times> FdpSanData \<times> guest" where
  "on_RtlSetUserValueHeap d g heap_handle base_address =
     (case thread_current g of
        None \<Rightarrow> (False, d, g)
      | Some t \<Rightarrow>
          let c = \<lparr>HeapHandle = heap_handle, ctx = \<lparr>addr = base_address, thread = t\<rparr>\<rparr>
          in if is_addr_tracked d c then (False, d, g)
             else
               let (ok, g1) = change_BaseAddress g 2 (base_address - half_add_size)
               in (ok, d, g1))"

definition on_RtlGetUserInfoHeap ::
  "FdpSanData \<Rightarrow> guest \<Rightarrow> u64 \<Rightarrow> u64 \<Rightarrow> bool \<times> FdpSanData \<times> guest" where
  "on_RtlGetUserInfoHeap d g heap_handle base_address =
     (case thread_current g of
        None \<Rightarrow> (False, d, g)
      | Some t \<Rightarrow>
          let c = \<lparr>HeapHandle = heap_handle, ctx = \<lparr>addr = base_address, thread = t\<rparr>\<rparr>
          in if is_addr_tracked d c then (False, d, g)
             else
               let (ok, g1) = change_BaseAddress g 2 (base_address - half_add_size)
               in (ok, d, g1))"

section \<open>Observing enumerations, and sample inputs\<close>

text \<open>
  What a callback of \<open>list_symbols\<close> has seen: \<open>entry\<close> is the call made for an entry,
  \<open>feed\<close> the state of the callback after a sequence of calls, and \<open>answer\<close> what the
  callback answered to the call at position \<open>k\<close>.
\<close>

fun feed :: "(string \<Rightarrow> nat \<Rightarrow> 's \<Rightarrow> walk_e \<times> 's) \<Rightarrow> (string \<times> nat) list \<Rightarrow> 's \<Rightarrow> 's" where
  "feed on_sym [] s = s"
| "feed on_sym (c # cs) s = feed on_sym cs (snd (on_sym (fst c) (snd c) s))"

definition entry :: "'p Pdb \<Rightarrow> Sym \<Rightarrow> string \<times> nat" where
  "entry this it = (string_at this (Sym.name_idx it), Sym.offset it)"

definition answer ::
  "(string \<Rightarrow> nat \<Rightarrow> 's \<Rightarrow> walk_e \<times> 's) \<Rightarrow> (string \<times> nat) list \<Rightarrow> 's \<Rightarrow> nat \<Rightarrow> walk_e" where
  "answer on_sym calls s k =
     fst (on_sym (fst (calls ! k)) (snd (calls ! k)) (feed on_sym (take k calls) s))"

text \<open>
  A small parsed file: three globals, two of them at the same address, one structure
  with two members and one type that is not a structure.
\<close>

definition example_file :: PDBFile where
  "example_file =
     \<lparr>global_variables =
        [\<lparr>PDBGlobalVariable.name = ''beta'', address = 32\<rparr>,
         \<lparr>PDBGlobalVariable.name = ''alpha'', address = 16\<rparr>,
         \<lparr>PDBGlobalVariable.name = ''Alias'', address = 16\<rparr>],
      types_byname =
        [(''_POINT'', \<lparr>typ_class = PDBTYPE_STRUCT, size_bytes = 8,
            struct_members = [\<lparr>PDBStructMember.name = ''X'', offset = 0\<rparr>,
                              \<lparr>PDBStructMember.name = ''Y'', offset = 4\<rparr>]\<rparr>),
         (''int'', \<lparr>typ_class = PDBTYPE_OTHER, size_bytes = 4, struct_members = []\<rparr>)]\<rparr>"

definition example_pdb :: "string Pdb" where
  "example_pdb = built ''/sym/nt.pdb/G1/nt.pdb'' ''G1'' example_file"

text \<open>A callback that counts its calls and asks to stop at the symbol \<open>Alias\<close>.\<close>

definition stop_at_Alias :: "string \<Rightarrow> nat \<Rightarrow> nat \<Rightarrow> walk_e \<times> nat" where
  "stop_at_Alias nm off count = (if nm = ''Alias'' then walk_stop else walk_next, count + 1)"

text \<open>
  Channels for the register reads: one whose reads all fail, one that reads 0
  everywhere. An environment with and without the symbol path, path operations on
  strings that join two components with a separator, and a parser that finds the
  sample file under one file name only.
\<close>


definition failing_channel :: "'r \<Rightarrow> u64 option" where
  "failing_channel reg = None"

definition zero_channel :: "'r \<Rightarrow> u64 option" where
  "zero_channel reg = Some 0"

definition example_getenv :: "string \<Rightarrow> string option" where
  "example_getenv var = (if var = ''_NT_SYMBOL_PATH'' then Some ''/sym'' else None)"

definition no_getenv :: "string \<Rightarrow> string option" where
  "no_getenv var = None"

definition empty_file :: PDBFile where
  "empty_file = \<lparr>global_variables = [], types_byname = []\<rparr>"

definition example_fs :: "string fs" where
  "example_fs =
     \<lparr>fs_path = (\<lambda>s. s), fs_div = (\<lambda>p q. p @ ''/'' @ q), fs_generic_string = (\<lambda>p. p)\<rparr>"

definition example_load_pdb_file :: "string \<Rightarrow> PDBFileState \<times> PDBFile" where
  "example_load_pdb_file path =
     (if path = ''/sym/nt.pdb/G1/nt.pdb'' then (PDB_STATE_OK, example_file)
      else (PDB_STATE_ERR_FILE_OPEN, empty_file))"

text \<open>
  A guest stopped at the entry of a heap function on thread 7, and one whose argument
  writes are refused, stopped at the entry of an allocation of \<open>0x40\<close> bytes. Plugin
  data without and with a tracked allocation, as an entry hit of
  \<open>RtlpAllocateHeapInternal\<close> leaves them, with the thread marked as reallocating, and
  with a return breakpoint registered for the return address \<open>0x401000\<close> on thread 7.
  \<open>san_guest_null\<close> is the guest at the return of an allocation that gave the null
  pointer.
\<close>

definition san_thread :: thread_t where
  "san_thread = \<lparr>thread_id = 7\<rparr>"

definition san_data :: FdpSanData where
  "san_data =
     \<lparr>threads_allocating = {}, threads_reallocating = {},
      heap_datas = (\<lambda>k. None), ret_ctxs = (\<lambda>k. None)\<rparr>"

definition san_guest :: guest where
  "san_guest =
     \<lparr>thread_current = Some san_thread,
      args = (\<lambda>i. 0),
      write_arg_ok = True,
      regs = (\<lambda>r. case r of FDP_RAX_REGISTER \<Rightarrow> Some 0x5000 | FDP_RSP_REGISTER \<Rightarrow> Some 0x7FF0),
      write_reg_ok = True\<rparr>"


definition san_key :: heap_ctx_t where
  "san_key = \<lparr>HeapHandle = 0xAA, ctx = \<lparr>addr = 0x5010, thread = san_thread\<rparr>\<rparr>"

definition san_tracking :: FdpSanData where
  "san_tracking = san_data\<lparr>heap_datas := (heap_datas san_data)(san_key \<mapsto> 0x40)\<rparr>"

definition san_entry :: "int behaviour \<times> FdpSanData \<times> guest" where
  "san_entry = on_RtlpAllocateHeapInternal captured_reader san_data san_guest 0xAA 0x40"




definition san_reallocating :: FdpSanData where
  "san_reallocating = san_data\<lparr>threads_reallocating := {7}\<rparr>"

text \<open>
  The names of a parsed file in the order in which \<open>setup\<close> stores them, the arena
  slices that these names occupy, and the bound on the name indices of the entries.
\<close>


definition terminated :: "string \<Rightarrow> char list" where
  "terminated n = n @ [NUL]"

definition type_names :: "string \<times> PDBTypeDef \<Rightarrow> string list" where
  "type_names it =
     (if typ_class (snd it) \<noteq> PDBTYPE_STRUCT then []
      else fst it # map PDBStructMember.name (struct_members (snd it)))"

definition file_names :: "PDBFile \<Rightarrow> string list" where
  "file_names pdb_file =
     map PDBGlobalVariable.name (global_variables pdb_file)
       @ concat (map type_names (types_byname pdb_file))"

fun slices :: "nat \<Rightarrow> string list \<Rightarrow> string_view list" where
  "slices i [] = []"
| "slices i (n # ns) = \<lparr>sv_data = i, sv_size = length n\<rparr> # slices (i + length n + 1) ns"

definition idx_bound :: "'p Pdb \<Rightarrow> nat \<Rightarrow> bool" where
  "idx_bound pdb idx =
     ((\<forall>s \<in> set (symbols pdb). Sym.name_idx s < idx) \<and>
      (\<forall>s \<in> set (strucs pdb). Struc.name_idx s < idx) \<and>
      (\<forall>m \<in> set (members pdb). Member.name_idx m < idx))"

text \<open>
  The CodeView header as the format lays it out, for a header starting at the
  beginning of \<open>hdr\<close>: the magic, the sixteen bytes of the GUID of which the first
  three fields (four, two and two bytes) are stored little-endian, the age as a
  little-endian 32-bit value, and the name of the PDB up to its zero byte.
  \<open>rsds_guid\<close> gives the GUID bytes with those three fields in big-endian order,
  \<open>rsds_header\<close> says that \<open>pdb\<close> is the identity of such a header whose name has
  \<open>name_len\<close> printable characters. A sample image follows.
\<close>

definition rsds_guid :: "byte list \<Rightarrow> byte list" where
  "rsds_guid hdr =
     [hdr ! 7, hdr ! 6, hdr ! 5, hdr ! 4, hdr ! 9, hdr ! 8, hdr ! 11, hdr ! 10]
       @ take 8 (drop 12 hdr)"

definition rsds_age :: "byte list \<Rightarrow> nat" where
  "rsds_age hdr =
     unat (hdr ! 20) + 2 ^ 8 * unat (hdr ! 21) + 2 ^ 16 * unat (hdr ! 22) + 2 ^ 24 * unat (hdr ! 23)"

definition rsds_header :: "byte list \<Rightarrow> nat \<Rightarrow> PdbCtx \<Rightarrow> bool" where
  "rsds_header hdr name_len pdb =
     (take 4 hdr = rsds_magic \<and>
      24 + name_len < length hdr \<and>
      hdr ! (24 + name_len) = 0 \<and>
      (\<forall>j < name_len. hdr ! (24 + j) \<noteq> 0 \<and> isprint (hdr ! (24 + j))) \<and>
      PdbCtx.name pdb = map (\<lambda>b. char_of (unat b)) (take name_len (drop 24 hdr)) \<and>
      PdbCtx.guid pdb = hex_convert chars_upper (rsds_guid hdr) @ to_string (rsds_age hdr))"

definition example_image :: "byte list" where
  "example_image =
     [0x4D, 0x5A, 0x52, 0x53, 0x44, 0x53,
      0x01, 0x02, 0x03, 0x04, 0x05, 0x06, 0x07, 0x08,
      0x09, 0x0A, 0x0B, 0x0C, 0x0D, 0x0E, 0x0F, 0xA0,
      0x02, 0x01, 0x00, 0x00,
      0x6E, 0x74, 0x2E, 0x70, 0x64, 0x62, 0x00, 0xFF]"

definition example_ctx :: PdbCtx where
  "example_ctx =
     \<lparr>PdbCtx.guid = ''0403020106050807090A0B0C0D0E0FA0258'', PdbCtx.name = ''nt.pdb''\<rparr>"

definition example_span :: span_t where
  "example_span = \<lparr>span_t.addr = 0x1000, span_size = 34\<rparr>"

definition example_read_all :: "u64 \<Rightarrow> nat \<Rightarrow> byte list option" where
  "example_read_all a n = (if a = 0x1000 \<and> n \<le> 34 then Some (take n example_image) else None)"

definition no_debug_codeview :: "span_t \<Rightarrow> span_t option" where
  "no_debug_codeview span = None"

text \<open>
  The sample image cut right after the last character of the name, so that the zero
  byte that ends the name is not part of it, with two samples of the memory that
  follows the buffer: the character \<open>X\<close> and then zero bytes, and no zero byte at all.
  \<open>zeros_beyond\<close> is memory that holds zero bytes. \<open>retry_image\<close> holds a header whose
  name is not printable, followed by the header of the sample image.
\<close>

definition truncated_image :: "byte list" where
  "truncated_image = take 32 example_image"

definition truncated_span :: span_t where
  "truncated_span = \<lparr>span_t.addr = 0x1000, span_size = 32\<rparr>"

definition beyond_X :: "nat \<Rightarrow> byte" where
  "beyond_X i = (if i = 0 then 0x58 else 0x00)"

definition beyond_no_zero :: "nat \<Rightarrow> byte" where
  "beyond_no_zero i = 0x58"

definition zeros_beyond :: "nat \<Rightarrow> byte" where
  "zeros_beyond i = 0x00"

definition retry_image :: "byte list" where
  "retry_image =
     [0x52, 0x53, 0x44, 0x53,
      0x11, 0x12, 0x13, 0x14, 0x15, 0x16, 0x17, 0x18,
      0x19, 0x1A, 0x1B, 0x1C, 0x1D, 0x1E, 0x1F, 0xB0,
      0x07, 0x00, 0x00, 0x00,
      0x6E, 0x01, 0x00] @ drop 2 example_image"

section \<open>Properties of the symbol index\<close>

subsection \<open>The offset-ordered list\<close>

lemma insert_ordered_Nil: "insert_ordered [] item = [item]"
  by (simp add: insert_ordered_def upper_bound_def)

lemma insert_ordered_Cons:
  "insert_ordered (x # xs) item =
     (if Sym.offset item < Sym.offset x then item # x # xs else x # insert_ordered xs item)"
  by (simp add: insert_ordered_def upper_bound_def Let_def)

lemma set_insert_ordered: "set (insert_ordered vec item) = insert item (set vec)"
  by (induction vec) (auto simp: insert_ordered_Nil insert_ordered_Cons)

lemma sorted_insert_ordered:
  "sorted (map Sym.offset vec) \<Longrightarrow> sorted (map Sym.offset (insert_ordered vec item))"
  by (induction vec) (auto simp: insert_ordered_Nil insert_ordered_Cons set_insert_ordered)

lemma offsets_setup_global:
  "offsets_to_symbols (fst (setup_global st it)) =
     insert_ordered (offsets_to_symbols (fst st)) \<lparr>Sym.name_idx = snd st, Sym.offset = address it\<rparr>"
  by (cases st) (simp add: setup_global_def emplace_string_def Let_def)

lemma offsets_setup_member:
  "offsets_to_symbols (fst (setup_member st m)) = offsets_to_symbols (fst st)"
  by (cases st) (simp add: setup_member_def emplace_string_def Let_def)

lemma offsets_foldl_setup_member:
  "offsets_to_symbols (fst (foldl setup_member st ms)) = offsets_to_symbols (fst st)"
  by (induction ms arbitrary: st) (simp_all add: offsets_setup_member)

lemma offsets_setup_type:
  "offsets_to_symbols (fst (setup_type st it)) = offsets_to_symbols (fst st)"
proof (cases st)
  case (Pair pdb idx)
  have "offsets_to_symbols (fst (foldl setup_member (emplace_string pdb (fst it), idx + 1) (struct_members (snd it))))
        = offsets_to_symbols pdb"
    by (simp add: offsets_foldl_setup_member emplace_string_def)
  then show ?thesis using Pair
    by (simp add: setup_type_def Let_def case_prod_beta)
qed

lemma offsets_foldl_setup_type:
  "offsets_to_symbols (fst (foldl setup_type st ts)) = offsets_to_symbols (fst st)"
  by (induction ts arbitrary: st) (simp_all add: offsets_setup_type)

lemma sorted_foldl_setup_global:
  "sorted (map Sym.offset (offsets_to_symbols (fst st))) \<Longrightarrow>
   sorted (map Sym.offset (offsets_to_symbols (fst (foldl setup_global st gs))))"
  by (induction gs arbitrary: st) (simp_all add: offsets_setup_global sorted_insert_ordered)

lemma offsets_setup_index:
  "offsets_to_symbols (setup_index pdb_file this) =
     offsets_to_symbols (fst (foldl setup_global (this, 0) (global_variables pdb_file)))"
  by (simp add: setup_index_def Let_def case_prod_beta offsets_foldl_setup_type)

lemma sorted_offsets_built:
  "sorted (map Sym.offset (offsets_to_symbols (built fname gid pdb_file)))"
  unfolding built_def offsets_setup_index
  by (rule sorted_foldl_setup_global) (simp add: Pdb_new_def)

text \<open>What the steps of \<open>setup\<close> leave alone.\<close>

lemma fields_setup_global:
  "filename (fst (setup_global st it)) = filename (fst st)"
  "Pdb.guid (fst (setup_global st it)) = Pdb.guid (fst st)"
  "strings (fst (setup_global st it)) = strings (fst st)"
  "strucs (fst (setup_global st it)) = strucs (fst st)"
  "members (fst (setup_global st it)) = members (fst st)"
  by (simp_all add: setup_global_def emplace_string_def Let_def case_prod_beta)

lemma fields_foldl_setup_global:
  "filename (fst (foldl setup_global st gs)) = filename (fst st)"
  "Pdb.guid (fst (foldl setup_global st gs)) = Pdb.guid (fst st)"
  "strings (fst (foldl setup_global st gs)) = strings (fst st)"
  "strucs (fst (foldl setup_global st gs)) = strucs (fst st)"
  "members (fst (foldl setup_global st gs)) = members (fst st)"
  by (induction gs arbitrary: st) (simp_all add: fields_setup_global)

lemma fields_setup_member:
  "filename (fst (setup_member st m)) = filename (fst st)"
  "Pdb.guid (fst (setup_member st m)) = Pdb.guid (fst st)"
  "strings (fst (setup_member st m)) = strings (fst st)"
  "strucs (fst (setup_member st m)) = strucs (fst st)"
  "symbols (fst (setup_member st m)) = symbols (fst st)"
  by (simp_all add: setup_member_def emplace_string_def Let_def case_prod_beta)

lemma fields_foldl_setup_member:
  "filename (fst (foldl setup_member st ms)) = filename (fst st)"
  "Pdb.guid (fst (foldl setup_member st ms)) = Pdb.guid (fst st)"
  "strings (fst (foldl setup_member st ms)) = strings (fst st)"
  "strucs (fst (foldl setup_member st ms)) = strucs (fst st)"
  "symbols (fst (foldl setup_member st ms)) = symbols (fst st)"
  by (induction ms arbitrary: st) (simp_all add: fields_setup_member)

lemma fields_setup_type:
  "filename (fst (setup_type st it)) = filename (fst st)"
  "Pdb.guid (fst (setup_type st it)) = Pdb.guid (fst st)"
  "strings (fst (setup_type st it)) = strings (fst st)"
  "symbols (fst (setup_type st it)) = symbols (fst st)"
  by (simp_all add: setup_type_def emplace_string_def Let_def case_prod_beta
        fields_foldl_setup_member)

lemma fields_foldl_setup_type:
  "filename (fst (foldl setup_type st ts)) = filename (fst st)"
  "Pdb.guid (fst (foldl setup_type st ts)) = Pdb.guid (fst st)"
  "strings (fst (foldl setup_type st ts)) = strings (fst st)"
  "symbols (fst (foldl setup_type st ts)) = symbols (fst st)"
  by (induction ts arbitrary: st) (simp_all add: fields_setup_type)

lemma built_filename: "filename (built fname gid pdb_file) = fname"
  by (simp add: built_def setup_index_def Let_def case_prod_beta
        fields_foldl_setup_type fields_foldl_setup_global Pdb_new_def)

lemma built_guid: "Pdb.guid (built fname gid pdb_file) = gid"
  by (simp add: built_def setup_index_def Let_def case_prod_beta
        fields_foldl_setup_type fields_foldl_setup_global Pdb_new_def)

lemma sorted_offset_nth:
  "sorted (map Sym.offset vec) \<Longrightarrow> i \<le> j \<Longrightarrow> j < length vec \<Longrightarrow>
   Sym.offset (vec ! i) \<le> Sym.offset (vec ! j)"
  using sorted_nth_mono [of "map Sym.offset vec" i j] by simp

lemma list_symbols_loop_calls:
  "list_symbols_loop this on_sym vec s = (s', calls) \<Longrightarrow>
   \<exists>n \<le> length vec. calls = map (entry this) (take n vec) \<and> s' = feed on_sym calls s \<and>
      (\<forall>k < n. answer on_sym calls s k = walk_stop \<longrightarrow> Suc k = n) \<and>
      (n < length vec \<longrightarrow> 0 < n \<and> answer on_sym calls s (n - 1) = walk_stop)"
proof (induction vec arbitrary: s s' calls)
  case Nil
  then show ?case by simp
next
  case (Cons it rest)
  obtain w s1 where step: "on_sym (string_at this (Sym.name_idx it)) (Sym.offset it) s = (w, s1)"
    by (cases "on_sym (string_at this (Sym.name_idx it)) (Sym.offset it) s")
  show ?case
  proof (cases w)
    case walk_stop
    with Cons.prems step have "s' = s1" "calls = [entry this it]"
      by (simp_all add: entry_def)
    with step walk_stop show ?thesis
      by (intro exI [of _ 1]) (simp add: entry_def answer_def)
  next
    case walk_next
    obtain s2 cs where rec: "list_symbols_loop this on_sym rest s1 = (s2, cs)"
      by (cases "list_symbols_loop this on_sym rest s1")
    with Cons.prems step walk_next have eq: "s' = s2" "calls = entry this it # cs"
      by (simp_all add: entry_def)
    from Cons.IH [OF rec] obtain n where n: "n \<le> length rest" "cs = map (entry this) (take n rest)"
      "s2 = feed on_sym cs s1"
      "\<forall>k < n. answer on_sym cs s1 k = walk_stop \<longrightarrow> Suc k = n"
      "n < length rest \<longrightarrow> 0 < n \<and> answer on_sym cs s1 (n - 1) = walk_stop"
      by blast
    have shift: "answer on_sym calls s (Suc k) = answer on_sym cs s1 k" for k
      using eq step by (simp add: answer_def entry_def)
    have first: "answer on_sym calls s 0 = walk_next"
      using eq step walk_next by (simp add: answer_def entry_def)
    have a: "\<forall>k < Suc n. answer on_sym calls s k = walk_stop \<longrightarrow> Suc k = Suc n"
    proof (intro allI impI)
      fix k assume "k < Suc n" "answer on_sym calls s k = walk_stop"
      then show "Suc k = Suc n"
        using n(4) shift first by (cases k) auto
    qed
    have b: "Suc n < length (it # rest) \<longrightarrow> 0 < Suc n \<and> answer on_sym calls s (Suc n - 1) = walk_stop"
    proof
      assume "Suc n < length (it # rest)"
      then have "n < length rest" by simp
      with n(5) obtain "0 < n" "answer on_sym cs s1 (n - 1) = walk_stop" by blast
      then show "0 < Suc n \<and> answer on_sym calls s (Suc n - 1) = walk_stop"
        using shift [of "n - 1"] by simp
    qed
    have c: "calls = map (entry this) (take (Suc n) (it # rest))" using eq n(2) by simp
    have d: "s' = feed on_sym calls s" using eq n(3) step by (simp add: entry_def)
    show ?thesis
      using n(1) a b c d by (intro exI [of _ "Suc n"]) simp
  qed
qed

lemma sorted_take_offsets:
  "sorted (map Sym.offset vec) \<Longrightarrow> sorted (map snd (map (entry this) (take n vec)))"
proof -
  assume "sorted (map Sym.offset vec)"
  then have "sorted (take n (map Sym.offset vec))" by (rule sorted_wrt_take)
  moreover have "map snd (map (entry this) (take n vec)) = take n (map Sym.offset vec)"
    by (simp add: entry_def take_map comp_def)
  ultimately show ?thesis by simp
qed

text \<open>
  Claim C8. In every module built by \<open>setup\<close>, the offset-ordered list is sorted:
  consecutive entries have nondecreasing offsets, whatever the order in which the
  globals were inserted, and a further \<open>insert_ordered\<close> keeps it so. \<open>list_symbols\<close>
  calls the callback on the entries of that list in order, hence with nondecreasing
  offsets; it goes on after every answer other than stop, and ends before the end of
  the list only when the last answer was stop.
\<close>

theorem offsets_sorted_and_listed:
  "(let this = built fname gid pdb_file; vec = offsets_to_symbols this in
     sorted (map Sym.offset vec) \<and>
     (\<forall>i. Suc i < length vec \<longrightarrow> Sym.offset (vec ! i) \<le> Sym.offset (vec ! Suc i)) \<and>
     (\<forall>item. sorted (map Sym.offset (insert_ordered vec item))) \<and>
     (\<forall>ok s' calls. list_symbols this on_sym s = (ok, s', calls) \<longrightarrow>
        ok \<and> sorted (map snd calls) \<and>
        (\<exists>n \<le> length vec. calls = map (entry this) (take n vec) \<and> s' = feed on_sym calls s \<and>
           (\<forall>k < n. answer on_sym calls s k = walk_stop \<longrightarrow> Suc k = n) \<and>
           (n < length vec \<longrightarrow> 0 < n \<and> answer on_sym calls s (n - 1) = walk_stop))))"
proof -
  let ?pdb = "built fname gid pdb_file"
  let ?vec = "offsets_to_symbols ?pdb"
  have srt: "sorted (map Sym.offset ?vec)" by (rule sorted_offsets_built)
  have consec: "\<forall>i. Suc i < length ?vec \<longrightarrow> Sym.offset (?vec ! i) \<le> Sym.offset (?vec ! Suc i)"
    using sorted_offset_nth [OF srt] by simp
  have ins: "\<forall>item. sorted (map Sym.offset (insert_ordered ?vec item))"
    using sorted_insert_ordered [OF srt] by simp
  have lst: "ok \<and> sorted (map snd calls) \<and>
        (\<exists>n \<le> length ?vec. calls = map (entry ?pdb) (take n ?vec) \<and> s' = feed on_sym calls s \<and>
           (\<forall>k < n. answer on_sym calls s k = walk_stop \<longrightarrow> Suc k = n) \<and>
           (n < length ?vec \<longrightarrow> 0 < n \<and> answer on_sym calls s (n - 1) = walk_stop))"
    if run: "list_symbols ?pdb on_sym s = (ok, s', calls)" for ok s' calls
  proof -
    from run have ok: "ok" and loop: "list_symbols_loop ?pdb on_sym ?vec s = (s', calls)"
      by (auto simp: list_symbols_def split: prod.splits)
    from list_symbols_loop_calls [OF loop] obtain n where
      n: "n \<le> length ?vec" "calls = map (entry ?pdb) (take n ?vec)" "s' = feed on_sym calls s"
         "\<forall>k < n. answer on_sym calls s k = walk_stop \<longrightarrow> Suc k = n"
         "n < length ?vec \<longrightarrow> 0 < n \<and> answer on_sym calls s (n - 1) = walk_stop"
      by blast
    have "sorted (map snd calls)" unfolding n(2) using srt by (rule sorted_take_offsets)
    with ok n show ?thesis by blast
  qed
  show ?thesis
    unfolding Let_def using srt consec ins lst by blast
qed

theorem offsets_sorted_and_listed_witness:
  "list_symbols example_pdb stop_at_Alias 0 = (True, 2, [(''alpha'', 16), (''Alias'', 16)]) \<and>
   sorted (map snd [(''alpha'', 16 :: nat), (''Alias'', 16)]) \<and>
   sorted (map Sym.offset (offsets_to_symbols example_pdb))"
proof -
  have run: "list_symbols example_pdb stop_at_Alias 0 = (True, 2, [(''alpha'', 16), (''Alias'', 16)])"
    by code_simp
  from offsets_sorted_and_listed
         [where fname = "''/sym/nt.pdb/G1/nt.pdb''" and gid = "''G1''" and pdb_file = example_file
            and on_sym = stop_at_Alias and s = 0]
  have "sorted (map Sym.offset (offsets_to_symbols example_pdb))"
    and "list_symbols example_pdb stop_at_Alias 0 = (True, 2, [(''alpha'', 16), (''Alias'', 16)])
         \<longrightarrow> sorted (map snd [(''alpha'', 16 :: nat), (''Alias'', 16)])"
    unfolding Let_def example_pdb_def by blast+
  with run show ?thesis by blast
qed

subsection \<open>Nearest symbol at or below an offset\<close>

lemma lower_bound_before:
  "i < lower_bound vec v cmp \<Longrightarrow> cmp (vec ! i) v"
  unfolding lower_bound_def
  by (metis (mono_tags, lifting) takeWhile_nth nth_mem set_takeWhileD)

lemma lower_bound_le: "lower_bound vec v cmp \<le> length vec"
  by (simp add: lower_bound_def length_takeWhile_le)

lemma lower_bound_at:
  "lower_bound vec v cmp < length vec \<Longrightarrow> \<not> cmp (vec ! lower_bound vec v cmp) v"
  unfolding lower_bound_def by (rule nth_length_takeWhile)

lemma lower_bound_eqI:
  "n \<le> length vec \<Longrightarrow> (\<And>i. i < n \<Longrightarrow> cmp (vec ! i) v) \<Longrightarrow>
   (n < length vec \<Longrightarrow> \<not> cmp (vec ! n) v) \<Longrightarrow> lower_bound vec v cmp = n"
  unfolding lower_bound_def
  by (subst takeWhile_eq_take_P_nth [where n = n]) auto

text \<open>The position whose entry find_symbol reports, when the vector is sorted.\<close>

lemma find_symbol_position:
  "find_symbol this off =
     (let vec = offsets_to_symbols this; it = lower_bound vec off (\<lambda>a b. Sym.offset a < b) in
      if it < length vec \<and> Sym.offset (vec ! it) = off
      then Some (string_at this (Sym.name_idx (vec ! it)), 0)
      else if it = 0 then None
      else Some (string_at this (Sym.name_idx (vec ! (it - 1))), off - Sym.offset (vec ! (it - 1))))"
proof -
  let ?vec = "offsets_to_symbols this"
  let ?it = "lower_bound ?vec off (\<lambda>a b. Sym.offset a < b)"
  have le: "?it \<le> length ?vec" by (rule lower_bound_le)
  show ?thesis
  proof (cases "?it = length ?vec")
    case True
    show ?thesis
    proof (cases "?vec = []")
      case True
      then show ?thesis by (simp add: find_symbol_def make_cursor_def lower_bound_def)
    next
      case False
      then have "rev ?vec ! 0 = ?vec ! (length ?vec - 1)"
        by (simp add: rev_nth)
      with True False show ?thesis
        by (simp add: find_symbol_def make_cursor_def Let_def)
    qed
  next
    case False
    with le have "?it < length ?vec" by simp
    with False show ?thesis
      by (auto simp add: find_symbol_def make_cursor_def Let_def)
  qed
qed


lemma find_symbol_None:
  assumes srt: "sorted (map Sym.offset (offsets_to_symbols this))"
  shows "(find_symbol this off = None) = (\<forall>s \<in> set (offsets_to_symbols this). off < Sym.offset s)"
proof -
  let ?vec = "offsets_to_symbols this"
  let ?it = "lower_bound ?vec off (\<lambda>a b. Sym.offset a < b)"
  have le: "?it \<le> length ?vec" by (rule lower_bound_le)
  have none: "(find_symbol this off = None) =
        (\<not> (?it < length ?vec \<and> Sym.offset (?vec ! ?it) = off) \<and> ?it = 0)"
    by (simp add: find_symbol_position Let_def)
  show ?thesis
  proof
    assume "find_symbol this off = None"
    with none have it0: "?it = 0" and ne: "\<not> (?it < length ?vec \<and> Sym.offset (?vec ! ?it) = off)"
      by blast+
    show "\<forall>s \<in> set ?vec. off < Sym.offset s"
    proof
      fix s assume "s \<in> set ?vec"
      then obtain j where j: "j < length ?vec" "?vec ! j = s"
        by (auto simp: in_set_conv_nth)
      then have pos: "?it < length ?vec" using it0 by auto
      have "\<not> Sym.offset (?vec ! ?it) < off" using lower_bound_at [OF pos] .
      with ne pos have "off < Sym.offset (?vec ! 0)" using it0 by auto
      also have "Sym.offset (?vec ! 0) \<le> Sym.offset (?vec ! j)"
        using sorted_offset_nth [OF srt, of 0 j] j by simp
      finally show "off < Sym.offset s" using j by simp
    qed
  next
    assume all: "\<forall>s \<in> set ?vec. off < Sym.offset s"
    have "?it = 0"
    proof (rule lower_bound_eqI)
      show "0 < length ?vec \<Longrightarrow> \<not> Sym.offset (?vec ! 0) < off"
        using all by (metis nth_mem not_less_iff_gr_or_eq)
    qed simp_all
    moreover have "\<not> (?it < length ?vec \<and> Sym.offset (?vec ! ?it) = off)"
      using all by (metis nth_mem less_irrefl)
    ultimately show "find_symbol this off = None" using none by simp
  qed
qed

lemma find_symbol_Some:
  assumes srt: "sorted (map Sym.offset (offsets_to_symbols this))"
    and res: "find_symbol this off = Some (nm, delta)"
  shows "\<exists>i < length (offsets_to_symbols this).
           nm = string_at this (Sym.name_idx (offsets_to_symbols this ! i)) \<and>
           Sym.offset (offsets_to_symbols this ! i) \<le> off \<and>
           Sym.offset (offsets_to_symbols this ! i) + delta = off \<and>
           (\<forall>s \<in> set (offsets_to_symbols this).
              Sym.offset s \<le> off \<longrightarrow> Sym.offset s \<le> Sym.offset (offsets_to_symbols this ! i))"
proof -
  let ?vec = "offsets_to_symbols this"
  let ?it = "lower_bound ?vec off (\<lambda>a b. Sym.offset a < b)"
  have le: "?it \<le> length ?vec" by (rule lower_bound_le)
  show ?thesis
  proof (cases "?it < length ?vec \<and> Sym.offset (?vec ! ?it) = off")
    case True
    with res have "nm = string_at this (Sym.name_idx (?vec ! ?it))" "delta = 0"
      by (simp_all add: find_symbol_position Let_def)
    with True show ?thesis by (intro exI [of _ ?it]) auto
  next
    case False
    with res have pos: "0 < ?it"
      and nm: "nm = string_at this (Sym.name_idx (?vec ! (?it - 1)))"
      and delta: "delta = off - Sym.offset (?vec ! (?it - 1))"
      by (auto simp add: find_symbol_position Let_def split: if_splits)
    have lt: "Sym.offset (?vec ! (?it - 1)) < off"
      using lower_bound_before [of "?it - 1" ?vec off "\<lambda>a b. Sym.offset a < b"] pos by simp
    have best: "Sym.offset s \<le> Sym.offset (?vec ! (?it - 1))"
      if s: "s \<in> set ?vec" and sle: "Sym.offset s \<le> off" for s
    proof -
      from s obtain j where j: "j < length ?vec" "?vec ! j = s"
        by (auto simp: in_set_conv_nth)
      have "j < ?it"
      proof (rule ccontr)
        assume "\<not> j < ?it"
        then have ge: "?it \<le> j" by simp
        with j have itl: "?it < length ?vec" by simp
        have "\<not> Sym.offset (?vec ! ?it) < off" using lower_bound_at [OF itl] .
        moreover have "Sym.offset (?vec ! ?it) \<noteq> off" using False itl by simp
        ultimately have "off < Sym.offset (?vec ! ?it)" by simp
        also have "\<dots> \<le> Sym.offset (?vec ! j)"
          using sorted_offset_nth [OF srt ge] j by simp
        finally show False using sle j by simp
      qed
      then have "j \<le> ?it - 1" by simp
      then show ?thesis using sorted_offset_nth [OF srt, of j "?it - 1"] j pos le by simp
    qed
    show ?thesis
      using pos le nm delta lt best by (intro exI [of _ "?it - 1"]) auto
  qed
qed

lemma find_symbol_between:
  assumes srt: "sorted (map Sym.offset (offsets_to_symbols this))"
    and i: "Suc i < length (offsets_to_symbols this)"
    and d: "d < Sym.offset (offsets_to_symbols this ! Suc i) - Sym.offset (offsets_to_symbols this ! i)"
    and first: "0 < d \<or> (\<forall>j < i. Sym.offset (offsets_to_symbols this ! j) < Sym.offset (offsets_to_symbols this ! i))"
  shows "find_symbol this (Sym.offset (offsets_to_symbols this ! i) + d) =
         Some (string_at this (Sym.name_idx (offsets_to_symbols this ! i)), d)"
proof -
  let ?vec = "offsets_to_symbols this"
  let ?off = "Sym.offset (?vec ! i) + d"
  let ?it = "lower_bound ?vec ?off (\<lambda>a b. Sym.offset a < b)"
  have below: "?off < Sym.offset (?vec ! Suc i)" using d by simp
  show ?thesis
  proof (cases "0 < d")
    case True
    have "?it = Suc i"
    proof (rule lower_bound_eqI)
      fix j assume "j < Suc i"
      then have "Sym.offset (?vec ! j) \<le> Sym.offset (?vec ! i)"
        using sorted_offset_nth [OF srt, of j i] i by simp
      then show "Sym.offset (?vec ! j) < ?off" using True by simp
    next
      show "\<not> Sym.offset (?vec ! Suc i) < ?off" using below by simp
    qed (use i in simp)
    then show ?thesis using below i by (simp add: find_symbol_position Let_def)
  next
    case False
    then have d0: "d = 0" by simp
    with first have fst: "\<forall>j < i. Sym.offset (?vec ! j) < Sym.offset (?vec ! i)" by simp
    have "?it = i"
    proof (rule lower_bound_eqI)
      fix j assume "j < i"
      then show "Sym.offset (?vec ! j) < ?off" using fst d0 by simp
    next
      show "\<not> Sym.offset (?vec ! i) < ?off" using d0 by simp
    qed (use i in simp)
    then show ?thesis using d0 i by (simp add: find_symbol_position Let_def)
  qed
qed

text \<open>
  Claim C1, amended. In every module built by \<open>setup\<close>, \<open>find_symbol\<close> is absent exactly
  when every symbol lies strictly above the queried offset (so always in an empty
  module); otherwise it returns the name of an entry whose offset is the greatest one
  at or below the query, with the distance from that offset as delta. For consecutive
  entries \<open>i\<close> and \<open>i + 1\<close> of the offset-ordered list and \<open>d\<close> below the difference of
  their offsets, \<open>find_symbol (offset i + d)\<close> is \<open>(name i, d)\<close> when \<open>d\<close> is positive
  or no earlier entry has the offset of entry \<open>i\<close>.
\<close>

theorem find_symbol_nearest:
  "(let this = built fname gid pdb_file; vec = offsets_to_symbols this in
     ((find_symbol this off = None) = (\<forall>s \<in> set vec. off < Sym.offset s)) \<and>
     (\<forall>nm delta. find_symbol this off = Some (nm, delta) \<longrightarrow>
        (\<exists>i < length vec.
           nm = string_at this (Sym.name_idx (vec ! i)) \<and>
           Sym.offset (vec ! i) \<le> off \<and>
           Sym.offset (vec ! i) + delta = off \<and>
           (\<forall>s \<in> set vec. Sym.offset s \<le> off \<longrightarrow> Sym.offset s \<le> Sym.offset (vec ! i)))) \<and>
     (\<forall>i d. Suc i < length vec \<and>
            d < Sym.offset (vec ! Suc i) - Sym.offset (vec ! i) \<and>
            (0 < d \<or> (\<forall>j < i. Sym.offset (vec ! j) < Sym.offset (vec ! i))) \<longrightarrow>
        find_symbol this (Sym.offset (vec ! i) + d) =
          Some (string_at this (Sym.name_idx (vec ! i)), d)))"
proof -
  let ?pdb = "built fname gid pdb_file"
  have srt: "sorted (map Sym.offset (offsets_to_symbols ?pdb))"
    by (rule sorted_offsets_built)
  show ?thesis
    unfolding Let_def
    using find_symbol_None [OF srt] find_symbol_Some [OF srt] find_symbol_between [OF srt]
    by blast
qed

theorem find_symbol_nearest_witness:
  "Suc 1 < length (offsets_to_symbols example_pdb) \<and>
   (4::nat) < Sym.offset (offsets_to_symbols example_pdb ! Suc 1)
                - Sym.offset (offsets_to_symbols example_pdb ! 1) \<and>
   find_symbol example_pdb (16 + 4) = Some (''Alias'', 4) \<and>
   map Sym.offset (offsets_to_symbols example_pdb) = [16, 16, 32] \<and>
   find_symbol example_pdb 15 = None"
proof -
  have vec: "offsets_to_symbols example_pdb =
      [\<lparr>Sym.name_idx = 1, Sym.offset = 16\<rparr>, \<lparr>Sym.name_idx = 2, Sym.offset = 16\<rparr>,
       \<lparr>Sym.name_idx = 0, Sym.offset = 32\<rparr>]"
    by code_simp
  have nm: "string_at example_pdb 2 = ''Alias''"
    by code_simp
  note inst = find_symbol_nearest
         [where fname = "''/sym/nt.pdb/G1/nt.pdb''" and gid = "''G1''" and pdb_file = example_file,
          unfolded Let_def, folded example_pdb_def]
  have above: "\<forall>s \<in> set (offsets_to_symbols example_pdb). 15 < Sym.offset s"
    by (simp add: vec)
  have none: "find_symbol example_pdb 15 = None"
    using inst [where off = 15] above by blast
  have "Suc 1 < length (offsets_to_symbols example_pdb) \<and>
        4 < Sym.offset (offsets_to_symbols example_pdb ! Suc 1)
              - Sym.offset (offsets_to_symbols example_pdb ! 1) \<and> (0::nat) < 4"
    by (simp add: vec)
  then have "find_symbol example_pdb (Sym.offset (offsets_to_symbols example_pdb ! 1) + 4) =
          Some (string_at example_pdb (Sym.name_idx (offsets_to_symbols example_pdb ! 1)), 4)"
    using inst [where off = 0] by blast
  then have some: "find_symbol example_pdb (16 + 4) = Some (''Alias'', 4)"
    by (simp add: vec nm)
  show ?thesis
    using some none by (simp add: vec)
qed

text \<open>
  The claim as stated fails where two entries share an offset: in the sample module
  the entries at positions 1 and 2 are \<open>Alias\<close> at 16 and \<open>beta\<close> at 32, and the query
  \<open>16 + 0\<close> gives \<open>alpha\<close>, the first entry at offset 16, not \<open>Alias\<close>.
\<close>

theorem find_symbol_shared_offset_counterexample:
  "Suc 1 < length (offsets_to_symbols example_pdb) \<and>
   entry example_pdb (offsets_to_symbols example_pdb ! 1) = (''Alias'', 16) \<and>
   entry example_pdb (offsets_to_symbols example_pdb ! Suc 1) = (''beta'', 32) \<and>
   (0::nat) < Sym.offset (offsets_to_symbols example_pdb ! Suc 1)
                - Sym.offset (offsets_to_symbols example_pdb ! 1) \<and>
   find_symbol example_pdb (Sym.offset (offsets_to_symbols example_pdb ! 1) + 0) = Some (''alpha'', 0) \<and>
   find_symbol example_pdb (Sym.offset (offsets_to_symbols example_pdb ! 1) + 0) \<noteq>
     Some (string_at example_pdb (Sym.name_idx (offsets_to_symbols example_pdb ! 1)), 0)"
  by code_simp

subsection \<open>Lookup by name\<close>

lemma binary_search_Some:
  "binary_search arena strs name_idx_of vec item = Some x \<Longrightarrow>
   x \<in> set vec \<and> sv_chars arena (strs ! name_idx_of x) = item"
proof -
  assume r: "binary_search arena strs name_idx_of vec item = Some x"
  let ?it = "lower_bound vec item (\<lambda>a b. sv_chars arena (strs ! name_idx_of a) < b)"
  have "?it \<le> length vec" by (rule lower_bound_le)
  moreover from r have "?it \<noteq> length vec" "vec ! ?it = x"
    "sv_chars arena (strs ! name_idx_of x) = item"
    by (auto simp: binary_search_def Let_def split: if_splits)
  ultimately show ?thesis by (metis le_neq_implies_less nth_mem)
qed

lemma binary_search_finds:
  assumes srt: "sorted (map (\<lambda>a. sv_chars arena (strs ! name_idx_of a)) vec)"
    and x: "x \<in> set vec" "sv_chars arena (strs ! name_idx_of x) = item"
  shows "\<exists>y. binary_search arena strs name_idx_of vec item = Some y"
proof -
  let ?key = "\<lambda>a. sv_chars arena (strs ! name_idx_of a)"
  let ?it = "lower_bound vec item (\<lambda>a b. ?key a < b)"
  from x obtain j where j: "j < length vec" "vec ! j = x"
    by (auto simp: in_set_conv_nth)
  have "\<not> j < ?it"
  proof
    assume "j < ?it"
    then have "?key (vec ! j) < item" by (rule lower_bound_before)
    with j x show False by simp
  qed
  then have le: "?it \<le> j" by simp
  with j have lt: "?it < length vec" by simp
  have ge: "\<not> ?key (vec ! ?it) < item" using lower_bound_at [OF lt] .
  have "?key (vec ! ?it) \<le> ?key (vec ! j)"
    using sorted_nth_mono [OF srt, of ?it j] le j by simp
  with ge j x have "?key (vec ! ?it) = item" by simp
  with lt show ?thesis by (simp add: binary_search_def Let_def)
qed

lemma of_char_NUL: "of_char NUL = (0::nat)"
  by (simp add: NUL_def)

lemma tolower_NUL_iff: "tolower c = NUL \<longleftrightarrow> c = NUL"
proof
  assume a: "tolower c = NUL"
  show "c = NUL"
  proof (cases "(0x41::nat) \<le> of_char c \<and> of_char c \<le> (0x5A::nat)")
    case True
    then have "tolower c = char_of (of_char c + (0x20::nat))" by (simp add: tolower_def)
    then have "of_char (tolower c) = (of_char c + (0x20::nat)) mod 256"
      by simp
    with a True show ?thesis by (simp add: of_char_NUL)
  next
    case False
    with a show ?thesis by (simp add: tolower_def)
  qed
next
  assume "c = NUL"
  then show "tolower c = NUL" by (simp add: tolower_def of_char_NUL)
qed

lemma strnicmp_zero_iff:
  "length a = n \<Longrightarrow> length b = n \<Longrightarrow> NUL \<notin> set b \<Longrightarrow>
   (strnicmp a b n = 0) = (map tolower a = map tolower b)"
proof (induction n arbitrary: a b)
  case 0
  then show ?case by simp
next
  case (Suc n)
  then obtain x xs y ys where ab: "a = x # xs" "b = y # ys"
    by (cases a; cases b) auto
  with Suc.prems have len: "length xs = n" "length ys = n" and nul: "y \<noteq> NUL" "NUL \<notin> set ys"
    by auto
  show ?case
  proof (cases "tolower x = tolower y")
    case True
    with nul have "tolower x \<noteq> NUL" by (simp add: tolower_NUL_iff)
    with True Suc.IH [OF len nul(2)] ab show ?thesis by (simp add: Let_def)
  next
    case False
    then have "int (of_char (tolower x)) - int (of_char (tolower y)) \<noteq> 0" by simp
    with False ab show ?thesis by (simp add: Let_def)
  qed
qed

lemma is_lowercase_equal_iff:
  "NUL \<notin> set b \<Longrightarrow>
   is_lowercase_equal a b = (length a = length b \<and> map tolower a = map tolower b)"
  using strnicmp_zero_iff [of a "length a" b]
  by (auto simp: is_lowercase_equal_def)

lemma member_offset_loop_find:
  "idx \<le> idx_end \<Longrightarrow>
   member_offset_loop this member idx idx_end =
     Some (case find (\<lambda>j. is_lowercase_equal member
                            (string_at this (Member.name_idx (members this ! j)))) [idx ..< idx_end] of
             None \<Rightarrow> None
           | Some j \<Rightarrow> Some (Member.offset (members this ! j)))"
proof (induction "idx_end - idx" arbitrary: idx)
  case 0
  then have "idx = idx_end" by simp
  then show ?case by (subst member_offset_loop.simps) simp
next
  case (Suc n)
  then have lt: "idx < idx_end" and n: "n = idx_end - (idx + 1)" and le: "idx + 1 \<le> idx_end"
    by simp_all
  have upt: "[idx ..< idx_end] = idx # [idx + 1 ..< idx_end]"
    using lt by (simp add: upt_conv_Cons)
  show ?case
    using lt Suc.hyps(1) [OF n le]
    by (subst member_offset_loop.simps) (simp add: upt Let_def)
qed


lemma built_symbols_sorted:
  "sorted (map (\<lambda>a. string_at (built fname gid pdb_file) (Sym.name_idx a))
            (symbols (built fname gid pdb_file)))"
  by (simp add: built_def setup_index_def Let_def case_prod_beta string_at_def
        sort_by_name_def)

lemma built_strucs_sorted:
  "sorted (map (\<lambda>a. string_at (built fname gid pdb_file) (Struc.name_idx a))
            (strucs (built fname gid pdb_file)))"
  by (simp add: built_def setup_index_def Let_def case_prod_beta string_at_def
        sort_by_name_def)

text \<open>The member ranges of the structures lie within the member list.\<close>

lemma members_setup_member:
  "members (fst (setup_member st m)) =
     members (fst st) @ [\<lparr>Member.name_idx = snd st, Member.offset = PDBStructMember.offset m\<rparr>]"
  by (simp add: setup_member_def emplace_string_def Let_def case_prod_beta)

lemma length_members_foldl_setup_member:
  "length (members (fst (foldl setup_member st ms))) = length (members (fst st)) + length ms"
  by (induction ms arbitrary: st) (simp_all add: members_setup_member)

lemma ranges_setup_type:
  assumes "\<forall>s \<in> set (strucs (fst st)).
             member_idx s \<le> member_end s \<and> member_end s \<le> length (members (fst st))"
  shows "\<forall>s \<in> set (strucs (fst (setup_type st it))).
             member_idx s \<le> member_end s \<and> member_end s \<le> length (members (fst (setup_type st it)))"
proof (cases "typ_class (snd it) \<noteq> PDBTYPE_STRUCT")
  case True
  with assms show ?thesis by (simp add: setup_type_def case_prod_beta)
next
  case False
  let ?st1 = "(emplace_string (fst st) (fst it), Suc (snd st))"
  let ?st2 = "foldl setup_member ?st1 (struct_members (snd it))"
  have len: "length (members (fst ?st2)) =
             length (members (fst st)) + length (struct_members (snd it))"
    by (simp add: length_members_foldl_setup_member emplace_string_def)
  have strucs: "strucs (fst ?st2) = strucs (fst st)"
    by (simp add: fields_foldl_setup_member emplace_string_def)
  from False have eq: "fst (setup_type st it) =
      (fst ?st2)\<lparr>strucs := strucs (fst ?st2) @
         [\<lparr>Struc.name_idx = snd st, Struc.size_bytes = PDBTypeDef.size_bytes (snd it),
           member_idx = length (members (fst st)), member_end = length (members (fst ?st2))\<rparr>]\<rparr>"
    by (simp add: setup_type_def Let_def case_prod_beta emplace_string_def)
  show ?thesis
    using assms by (auto simp add: eq strucs len)
qed

lemma ranges_foldl_setup_type:
  "\<forall>s \<in> set (strucs (fst st)).
      member_idx s \<le> member_end s \<and> member_end s \<le> length (members (fst st)) \<Longrightarrow>
   \<forall>s \<in> set (strucs (fst (foldl setup_type st ts))).
      member_idx s \<le> member_end s \<and> member_end s \<le> length (members (fst (foldl setup_type st ts)))"
proof (induction ts arbitrary: st)
  case Nil
  then show ?case by simp
next
  case (Cons it ts)
  show ?case
    using Cons.IH [OF ranges_setup_type [OF Cons.prems, of it]] by simp
qed

lemma built_ranges:
  "\<forall>s \<in> set (strucs (built fname gid pdb_file)).
      member_idx s \<le> member_end s \<and> member_end s \<le> length (members (built fname gid pdb_file))"
proof -
  let ?st1 = "foldl setup_global (Pdb_new fname gid, 0) (global_variables pdb_file)"
  let ?st2 = "foldl setup_type ?st1 (types_byname pdb_file)"
  have "strucs (fst ?st1) = []"
    by (simp add: fields_foldl_setup_global Pdb_new_def)
  then have "\<forall>s \<in> set (strucs (fst ?st1)).
      member_idx s \<le> member_end s \<and> member_end s \<le> length (members (fst ?st1))"
    by simp
  from ranges_foldl_setup_type [OF this]
  have "\<forall>s \<in> set (strucs (fst ?st2)).
      member_idx s \<le> member_end s \<and> member_end s \<le> length (members (fst ?st2))" .
  then show ?thesis
    by (simp add: built_def setup_index_def Let_def case_prod_beta sort_by_name_def)
qed

lemma symbol_offset_Some:
  "symbol_offset this symbol = Some off \<Longrightarrow>
   \<exists>s \<in> set (symbols this). string_at this (Sym.name_idx s) = symbol \<and> Sym.offset s = off"
  by (auto simp: symbol_offset_def string_at_def split: option.splits
        dest!: binary_search_Some)

lemma symbol_offset_finds:
  assumes "sorted (map (\<lambda>a. string_at this (Sym.name_idx a)) (symbols this))"
    and "s \<in> set (symbols this)" "string_at this (Sym.name_idx s) = symbol"
  shows "\<exists>off. symbol_offset this symbol = Some off"
  using binary_search_finds [of "data_strings this" "strings this" Sym.name_idx "symbols this" s symbol]
    assms
  by (auto simp: symbol_offset_def string_at_def)

lemma member_offset_total:
  assumes rng: "\<forall>s \<in> set (strucs this). member_idx s \<le> member_end s"
  shows "\<exists>r. member_offset this struc member = Some r"
proof (cases "binary_search (data_strings this) (strings this) Struc.name_idx (strucs this) struc")
  case None
  then show ?thesis by (simp add: member_offset_def)
next
  case (Some s)
  then have "s \<in> set (strucs this)" by (auto dest: binary_search_Some)
  with rng have "member_idx s \<le> member_end s" by simp
  then show ?thesis
    using Some by (simp add: member_offset_def member_offset_loop_find)
qed

lemma member_offset_Some:
  assumes rng: "\<forall>s \<in> set (strucs this). member_idx s \<le> member_end s"
    and res: "member_offset this struc member = Some (Some off)"
  shows "\<exists>s \<in> set (strucs this). string_at this (Struc.name_idx s) = struc \<and>
           (\<exists>idx. member_idx s \<le> idx \<and> idx < member_end s \<and>
              Member.offset (members this ! idx) = off \<and>
              is_lowercase_equal member (string_at this (Member.name_idx (members this ! idx))) \<and>
              (\<forall>j. member_idx s \<le> j \<and> j < idx \<longrightarrow>
                 \<not> is_lowercase_equal member (string_at this (Member.name_idx (members this ! j)))))"
proof (cases "binary_search (data_strings this) (strings this) Struc.name_idx (strucs this) struc")
  case None
  with res show ?thesis by (simp add: member_offset_def)
next
  case (Some s)
  then have s: "s \<in> set (strucs this)" "string_at this (Struc.name_idx s) = struc"
    by (auto simp: string_at_def dest: binary_search_Some)
  with rng have le: "member_idx s \<le> member_end s" by simp
  let ?P = "\<lambda>j. is_lowercase_equal member (string_at this (Member.name_idx (members this ! j)))"
  from res Some obtain j where f: "find ?P [member_idx s ..< member_end s] = Some j"
    and off: "Member.offset (members this ! j) = off"
    by (auto simp: member_offset_def member_offset_loop_find [OF le] split: option.splits)
  from f obtain i where i: "i < length [member_idx s ..< member_end s]"
    "?P ([member_idx s ..< member_end s] ! i)" "j = [member_idx s ..< member_end s] ! i"
    "\<forall>k < i. \<not> ?P ([member_idx s ..< member_end s] ! k)"
    unfolding find_Some_iff by blast
  then have j: "j = member_idx s + i" "i < member_end s - member_idx s" by simp_all
  have before: "\<not> ?P k" if "member_idx s \<le> k \<and> k < j" for k
  proof -
    from that j have "k - member_idx s < i" by linarith
    with i(4) have "\<not> ?P ([member_idx s ..< member_end s] ! (k - member_idx s))" by blast
    moreover have "[member_idx s ..< member_end s] ! (k - member_idx s) = k"
      using that j by auto
    ultimately show ?thesis by simp
  qed
  have "member_idx s \<le> j \<and> j < member_end s \<and> Member.offset (members this ! j) = off \<and> ?P j"
    using j i(2,3) off by simp
  with before s show ?thesis by blast
qed

lemma member_offset_None:
  assumes rng: "\<forall>s \<in> set (strucs this). member_idx s \<le> member_end s"
    and res: "member_offset this struc member = Some None"
    and s: "binary_search (data_strings this) (strings this) Struc.name_idx (strucs this) struc = Some s"
    and idx: "member_idx s \<le> idx" "idx < member_end s"
  shows "\<not> is_lowercase_equal member (string_at this (Member.name_idx (members this ! idx)))"
proof -
  from s have "s \<in> set (strucs this)" by (auto dest: binary_search_Some)
  with rng have le: "member_idx s \<le> member_end s" by simp
  let ?P = "\<lambda>j. is_lowercase_equal member (string_at this (Member.name_idx (members this ! j)))"
  from res s have "find ?P [member_idx s ..< member_end s] = None"
    by (auto simp: member_offset_def member_offset_loop_find [OF le] split: option.splits)
  then have "\<forall>j \<in> set [member_idx s ..< member_end s]. \<not> ?P j"
    by (simp add: find_None_iff)
  with idx show ?thesis by simp
qed


subsection \<open>The string arena\<close>

lemma arena_setup_global:
  "data_strings (fst (setup_global st it)) =
     data_strings (fst st) @ terminated (PDBGlobalVariable.name it)"
  "snd (setup_global st it) = snd st + 1"
  by (simp_all add: setup_global_def emplace_string_def Let_def case_prod_beta terminated_def)

lemma arena_foldl_setup_global:
  "data_strings (fst (foldl setup_global st gs)) =
     data_strings (fst st) @ concat (map terminated (map PDBGlobalVariable.name gs))"
  "snd (foldl setup_global st gs) = snd st + length gs"
  by (induction gs arbitrary: st) (simp_all add: arena_setup_global)

lemma arena_setup_member:
  "data_strings (fst (setup_member st m)) =
     data_strings (fst st) @ terminated (PDBStructMember.name m)"
  "snd (setup_member st m) = snd st + 1"
  by (simp_all add: setup_member_def emplace_string_def Let_def case_prod_beta terminated_def)

lemma arena_foldl_setup_member:
  "data_strings (fst (foldl setup_member st ms)) =
     data_strings (fst st) @ concat (map terminated (map PDBStructMember.name ms))"
  "snd (foldl setup_member st ms) = snd st + length ms"
  by (induction ms arbitrary: st) (simp_all add: arena_setup_member)

lemma arena_setup_type:
  "data_strings (fst (setup_type st it)) =
     data_strings (fst st) @ concat (map terminated (type_names it))"
  "snd (setup_type st it) = snd st + length (type_names it)"
  by (simp_all add: setup_type_def Let_def case_prod_beta type_names_def
        arena_foldl_setup_member emplace_string_def terminated_def)

lemma arena_foldl_setup_type:
  "data_strings (fst (foldl setup_type st ts)) =
     data_strings (fst st) @ concat (map terminated (concat (map type_names ts)))"
  "snd (foldl setup_type st ts) = snd st + length (concat (map type_names ts))"
  by (induction ts arbitrary: st) (simp_all add: arena_setup_type)

lemma built_arena:
  "data_strings (built fname gid pdb_file) = concat (map terminated (file_names pdb_file))"
  by (simp add: built_def setup_index_def Let_def case_prod_beta arena_foldl_setup_type
        arena_foldl_setup_global file_names_def Pdb_new_def)

lemma built_strings:
  "strings (built fname gid pdb_file) =
     setup_strings (concat (map terminated (file_names pdb_file))) 0 []"
  by (simp add: built_def setup_index_def Let_def case_prod_beta arena_foldl_setup_type
        arena_foldl_setup_global file_names_def Pdb_new_def
        fields_foldl_setup_type fields_foldl_setup_global)

lemma setup_strings_slices:
  "\<forall>n \<in> set names. NUL \<notin> set n \<Longrightarrow>
   setup_strings (pre @ concat (map terminated names)) (length pre) acc =
     acc @ slices (length pre) names"
proof (induction names arbitrary: pre acc)
  case Nil
  show ?case by (subst setup_strings.simps) simp
next
  case (Cons n ns)
  let ?arena = "pre @ concat (map terminated (n # ns))"
  let ?rest = "concat (map terminated ns)"
  have n: "\<forall>c \<in> set n. c \<noteq> NUL" using Cons.prems by auto
  have dr: "drop (length pre) ?arena = n @ NUL # ?rest"
    by (simp add: terminated_def)
  have tw: "takeWhile (\<lambda>c. c \<noteq> NUL) (n @ NUL # ?rest) = n"
    using n by simp
  have sv: "string_view_at ?arena (length pre) = \<lparr>sv_data = length pre, sv_size = length n\<rparr>"
    by (simp only: string_view_at_def dr tw)
  have lt: "length pre < length ?arena" by (simp add: terminated_def)
  have ar: "?arena = (pre @ terminated n) @ ?rest" by simp
  have nxt: "length pre + length n + 1 = length (pre @ terminated n)"
    by (simp add: terminated_def)
  have ih: "setup_strings ((pre @ terminated n) @ ?rest) (length (pre @ terminated n))
              (acc @ [\<lparr>sv_data = length pre, sv_size = length n\<rparr>]) =
            (acc @ [\<lparr>sv_data = length pre, sv_size = length n\<rparr>]) @ slices (length (pre @ terminated n)) ns"
    using Cons.prems by (intro Cons.IH) simp
  have "setup_strings ?arena (length pre) acc =
        setup_strings ?arena (length pre + length n + 1) (acc @ [\<lparr>sv_data = length pre, sv_size = length n\<rparr>])"
    using lt by (subst setup_strings.simps) (simp only: sv Let_def last_snoc if_True string_view.simps)
  also have "\<dots> = (acc @ [\<lparr>sv_data = length pre, sv_size = length n\<rparr>]) @ slices (length (pre @ terminated n)) ns"
    unfolding nxt ar using ih .
  also have "\<dots> = acc @ slices (length pre) (n # ns)"
    by (simp add: terminated_def)
  finally show ?case .
qed

lemma length_slices: "length (slices i names) = length names"
  by (induction names arbitrary: i) simp_all

lemma sv_chars_slices:
  "k < length names \<Longrightarrow>
   sv_chars (pre @ concat (map terminated names)) (slices (length pre) names ! k) = names ! k"
proof (induction names arbitrary: pre k)
  case Nil
  then show ?case by simp
next
  case (Cons n ns)
  show ?case
  proof (cases k)
    case 0
    then show ?thesis by (simp add: sv_chars_def terminated_def)
  next
    case (Suc j)
    with Cons.prems have j: "j < length ns" by simp
    have "sv_chars ((pre @ terminated n) @ concat (map terminated ns))
            (slices (length (pre @ terminated n)) ns ! j) = ns ! j"
      using j by (rule Cons.IH)
    moreover have "length (pre @ terminated n) = Suc (length pre + length n)"
      by (simp add: terminated_def)
    moreover have "(pre @ terminated n) @ concat (map terminated ns) =
                   pre @ concat (map terminated (n # ns))"
      by simp
    ultimately show ?thesis using Suc by simp
  qed
qed

lemma built_slices:
  assumes "\<forall>n \<in> set (file_names pdb_file). NUL \<notin> set n"
  shows "strings (built fname gid pdb_file) = slices 0 (file_names pdb_file)"
    and "k < length (file_names pdb_file) \<Longrightarrow>
         string_at (built fname gid pdb_file) k = file_names pdb_file ! k"
proof -
  show s: "strings (built fname gid pdb_file) = slices 0 (file_names pdb_file)"
    using setup_strings_slices [OF assms, of "[]" "[]"] by (simp add: built_strings)
  show "string_at (built fname gid pdb_file) k = file_names pdb_file ! k"
    if "k < length (file_names pdb_file)"
    using sv_chars_slices [OF that, of "[]"] by (simp add: string_at_def s built_arena)
qed


text \<open>Every entry refers to a name stored before the counter was advanced.\<close>

lemma idx_bound_mono: "idx_bound pdb idx \<Longrightarrow> idx \<le> idx' \<Longrightarrow> idx_bound pdb idx'"
  by (fastforce simp: idx_bound_def)

lemma idx_bound_setup_global:
  "idx_bound (fst st) (snd st) \<Longrightarrow> idx_bound (fst (setup_global st it)) (snd (setup_global st it))"
  by (cases st)
     (fastforce simp: idx_bound_def setup_global_def emplace_string_def Let_def set_insert_ordered)

lemma idx_bound_foldl_setup_global:
  "idx_bound (fst st) (snd st) \<Longrightarrow>
   idx_bound (fst (foldl setup_global st gs)) (snd (foldl setup_global st gs))"
  by (induction gs arbitrary: st) (simp_all add: idx_bound_setup_global)

lemma idx_bound_setup_member:
  "idx_bound (fst st) (snd st) \<Longrightarrow> idx_bound (fst (setup_member st m)) (snd (setup_member st m))"
  by (cases st) (fastforce simp: idx_bound_def setup_member_def emplace_string_def Let_def)

lemma idx_bound_foldl_setup_member:
  "idx_bound (fst st) (snd st) \<Longrightarrow>
   idx_bound (fst (foldl setup_member st ms)) (snd (foldl setup_member st ms))"
  by (induction ms arbitrary: st) (simp_all add: idx_bound_setup_member)

lemma idx_bound_setup_type:
  assumes "idx_bound (fst st) (snd st)"
  shows "idx_bound (fst (setup_type st it)) (snd (setup_type st it))"
proof (cases "typ_class (snd it) \<noteq> PDBTYPE_STRUCT")
  case True
  with assms show ?thesis by (simp add: setup_type_def case_prod_beta)
next
  case False
  let ?st1 = "(emplace_string (fst st) (fst it), Suc (snd st))"
  let ?st2 = "foldl setup_member ?st1 (struct_members (snd it))"
  have "idx_bound (fst ?st1) (snd ?st1)"
    using assms by (fastforce simp: idx_bound_def emplace_string_def)
  then have b2: "idx_bound (fst ?st2) (snd ?st2)"
    by (rule idx_bound_foldl_setup_member)
  have lt: "snd st < snd ?st2"
    by (simp add: arena_foldl_setup_member)
  from False have eq: "fst (setup_type st it) =
      (fst ?st2)\<lparr>strucs := strucs (fst ?st2) @
         [\<lparr>Struc.name_idx = snd st, Struc.size_bytes = PDBTypeDef.size_bytes (snd it),
           member_idx = length (members (fst st)), member_end = length (members (fst ?st2))\<rparr>]\<rparr>"
    "snd (setup_type st it) = snd ?st2"
    by (simp_all add: setup_type_def Let_def case_prod_beta emplace_string_def)
  show ?thesis
    using b2 lt unfolding eq by (auto simp: idx_bound_def)
qed

lemma idx_bound_foldl_setup_type:
  "idx_bound (fst st) (snd st) \<Longrightarrow>
   idx_bound (fst (foldl setup_type st ts)) (snd (foldl setup_type st ts))"
  by (induction ts arbitrary: st) (simp_all add: idx_bound_setup_type)

lemma built_idx_bound:
  "idx_bound (built fname gid pdb_file) (length (file_names pdb_file))"
proof -
  let ?st1 = "foldl setup_global (Pdb_new fname gid, 0) (global_variables pdb_file)"
  let ?st2 = "foldl setup_type ?st1 (types_byname pdb_file)"
  have "idx_bound (fst (Pdb_new fname gid, 0::nat)) (snd (Pdb_new fname gid, 0::nat))"
    by (simp add: idx_bound_def Pdb_new_def)
  then have "idx_bound (fst ?st1) (snd ?st1)" by (rule idx_bound_foldl_setup_global)
  then have "idx_bound (fst ?st2) (snd ?st2)" by (rule idx_bound_foldl_setup_type)
  moreover have "snd ?st2 = length (file_names pdb_file)"
    by (simp add: arena_foldl_setup_type arena_foldl_setup_global file_names_def)
  ultimately have "idx_bound (fst ?st2) (length (file_names pdb_file))" by simp
  then show ?thesis
    by (simp add: idx_bound_def built_def setup_index_def Let_def case_prod_beta sort_by_name_def)
qed

lemma symbols_setup_global:
  "symbols (fst (setup_global st it)) =
     symbols (fst st) @ [\<lparr>Sym.name_idx = snd st, Sym.offset = address it\<rparr>]"
  by (simp add: setup_global_def emplace_string_def Let_def case_prod_beta)

lemma same_syms_foldl_setup_global:
  "set (offsets_to_symbols (fst st)) = set (symbols (fst st)) \<Longrightarrow>
   set (offsets_to_symbols (fst (foldl setup_global st gs))) =
   set (symbols (fst (foldl setup_global st gs)))"
  by (induction gs arbitrary: st)
     (simp_all add: offsets_setup_global symbols_setup_global set_insert_ordered)

lemma built_same_syms:
  "set (offsets_to_symbols (built fname gid pdb_file)) = set (symbols (built fname gid pdb_file))"
proof -
  let ?st1 = "foldl setup_global (Pdb_new fname gid, 0) (global_variables pdb_file)"
  have "set (offsets_to_symbols (fst ?st1)) = set (symbols (fst ?st1))"
    by (rule same_syms_foldl_setup_global) (simp add: Pdb_new_def)
  then show ?thesis
    by (simp add: offsets_foldl_setup_type built_def setup_index_def Let_def case_prod_beta
          sort_by_name_def fields_foldl_setup_type)
qed

subsection \<open>Case sensitivity of the lookups\<close>

lemma setup_strings_views:
  "v \<in> set (setup_strings arena i acc) \<Longrightarrow>
   v \<in> set acc \<or> (\<exists>j. v = string_view_at arena j)"
proof (induction arena i acc rule: setup_strings.induct)
  case (1 arena i strs)
  show ?case
  proof (cases "i < length arena")
    case True
    with "1.prems" have "v \<in> set (setup_strings arena
        (i + sv_size (last (strs @ [string_view_at arena i])) + 1) (strs @ [string_view_at arena i]))"
      by (subst (asm) setup_strings.simps) (simp add: Let_def)
    from "1.IH" [OF True refl this] show ?thesis by auto
  next
    case False
    with "1.prems" show ?thesis by (subst (asm) setup_strings.simps) simp
  qed
qed

lemma sv_chars_string_view_at:
  "sv_chars arena (string_view_at arena j) = takeWhile (\<lambda>c. c \<noteq> NUL) (drop j arena)"
  by (simp add: sv_chars_def string_view_at_def takeWhile_eq_take [symmetric])

lemma view_nul_free: "NUL \<notin> set (sv_chars arena (string_view_at arena j))"
  unfolding sv_chars_string_view_at by (auto dest: set_takeWhileD)

lemma setup_strings_chunk:
  "\<exists>acc'. setup_strings (pre @ w @ NUL # rest) (length pre) acc =
            setup_strings (pre @ w @ NUL # rest) (length pre + length w + 1) acc' \<and>
          length acc < length acc'"
proof (induction "length w" arbitrary: w pre acc rule: less_induct)
  case less
  let ?arena = "pre @ w @ NUL # rest"
  have lt: "length pre < length ?arena" by simp
  show ?case
  proof (cases "NUL \<in> set w")
    case False
    then have "\<forall>c \<in> set w. c \<noteq> NUL" by auto
    then have tw: "takeWhile (\<lambda>c. c \<noteq> NUL) (w @ NUL # rest) = w" by simp
    have sv: "string_view_at ?arena (length pre) = \<lparr>sv_data = length pre, sv_size = length w\<rparr>"
      by (simp add: string_view_at_def tw)
    have "setup_strings ?arena (length pre) acc =
          setup_strings ?arena (length pre + length w + 1) (acc @ [\<lparr>sv_data = length pre, sv_size = length w\<rparr>])"
      using lt by (subst setup_strings.simps) (simp only: sv Let_def last_snoc if_True string_view.simps)
    then show ?thesis by (intro exI [of _ "acc @ [\<lparr>sv_data = length pre, sv_size = length w\<rparr>]"]) simp
  next
    case True
    then obtain w1 w2 where w: "w = w1 @ NUL # w2" "NUL \<notin> set w1"
      by (auto dest: split_list_first)
    then have "\<forall>c \<in> set w1. c \<noteq> NUL" by auto
    with w have tw: "takeWhile (\<lambda>c. c \<noteq> NUL) (w @ NUL # rest) = w1" by simp
    have sv: "string_view_at ?arena (length pre) = \<lparr>sv_data = length pre, sv_size = length w1\<rparr>"
      by (simp add: string_view_at_def tw)
    let ?v = "\<lparr>sv_data = length pre, sv_size = length w1\<rparr>"
    have step: "setup_strings ?arena (length pre) acc =
          setup_strings ?arena (length pre + length w1 + 1) (acc @ [?v])"
      using lt by (subst setup_strings.simps) (simp only: sv Let_def last_snoc if_True string_view.simps)
    have ar: "?arena = (pre @ w1 @ [NUL]) @ w2 @ NUL # rest" using w by simp
    have ix: "length pre + length w1 + 1 = length (pre @ w1 @ [NUL])" by simp
    have "length w2 < length w" using w by simp
    from less [OF this, of "pre @ w1 @ [NUL]" "acc @ [?v]"]
    obtain acc' where a: "setup_strings ((pre @ w1 @ [NUL]) @ w2 @ NUL # rest) (length (pre @ w1 @ [NUL])) (acc @ [?v]) =
        setup_strings ((pre @ w1 @ [NUL]) @ w2 @ NUL # rest) (length (pre @ w1 @ [NUL]) + length w2 + 1) acc'"
      and l: "length (acc @ [?v]) < length acc'" by blast
    have e: "length (pre @ w1 @ [NUL]) + length w2 + 1 = length pre + length w + 1"
      using w by simp
    have "setup_strings ?arena (length pre) acc = setup_strings ?arena (length pre + length w + 1) acc'"
      unfolding step ix unfolding ar a e ..
    with l show ?thesis by (intro exI [of _ acc']) simp
  qed
qed

lemma length_setup_strings:
  "length acc + length names \<le>
   length (setup_strings (pre @ concat (map terminated names)) (length pre) acc)"
proof (induction names arbitrary: pre acc)
  case Nil
  show ?case by (subst setup_strings.simps) simp
next
  case (Cons n ns)
  let ?rest = "concat (map terminated ns)"
  have ar: "pre @ concat (map terminated (n # ns)) = pre @ n @ NUL # ?rest"
    by (simp add: terminated_def)
  from setup_strings_chunk [of pre n ?rest acc] obtain acc' where
    a: "setup_strings (pre @ n @ NUL # ?rest) (length pre) acc =
        setup_strings (pre @ n @ NUL # ?rest) (length pre + length n + 1) acc'"
    and l: "length acc < length acc'" by blast
  have ar2: "pre @ n @ NUL # ?rest = (pre @ terminated n) @ ?rest"
    by (simp add: terminated_def)
  have ix: "length pre + length n + 1 = length (pre @ terminated n)"
    by (simp add: terminated_def)
  have "length acc' + length ns \<le> length (setup_strings ((pre @ terminated n) @ ?rest) (length (pre @ terminated n)) acc')"
    by (rule Cons.IH)
  then show ?case unfolding ar a unfolding ix ar2 using l by simp
qed

lemma built_name_nul_free:
  assumes "k < length (file_names pdb_file)"
  shows "NUL \<notin> set (string_at (built fname gid pdb_file) k)"
proof -
  let ?arena = "concat (map terminated (file_names pdb_file))"
  let ?strs = "setup_strings ?arena 0 []"
  have "length (file_names pdb_file) \<le> length ?strs"
    using length_setup_strings [of "[]" "file_names pdb_file" "[]"] by simp
  with assms have "?strs ! k \<in> set ?strs" by simp
  from setup_strings_views [OF this] obtain j where "?strs ! k = string_view_at ?arena j"
    by auto
  then show ?thesis
    by (simp add: string_at_def built_arena built_strings view_nul_free)
qed

lemma built_member_nul_free:
  assumes "idx < length (members (built fname gid pdb_file))"
  shows "NUL \<notin> set (string_at (built fname gid pdb_file)
                       (Member.name_idx (members (built fname gid pdb_file) ! idx)))"
proof -
  from assms have "members (built fname gid pdb_file) ! idx \<in> set (members (built fname gid pdb_file))"
    by simp
  with built_idx_bound [of fname gid pdb_file]
  have "Member.name_idx (members (built fname gid pdb_file) ! idx) < length (file_names pdb_file)"
    unfolding idx_bound_def by blast
  then show ?thesis by (rule built_name_nul_free)
qed

lemma is_lowercase_equal_map:
  "NUL \<notin> set b \<Longrightarrow> is_lowercase_equal a b = (map tolower b = map tolower a)"
proof -
  assume n: "NUL \<notin> set b"
  have "length a = length b" if "map tolower b = map tolower a"
    using map_eq_imp_length_eq [OF that] by simp
  then show ?thesis
    unfolding is_lowercase_equal_iff [OF n] by auto
qed

lemma binary_search_unique:
  assumes srt: "sorted (map (\<lambda>a. sv_chars arena (strs ! name_idx_of a)) vec)"
    and x: "x \<in> set vec" "sv_chars arena (strs ! name_idx_of x) = item"
    and uniq: "\<forall>y \<in> set vec. sv_chars arena (strs ! name_idx_of y) = item \<longrightarrow> y = x"
  shows "binary_search arena strs name_idx_of vec item = Some x"
proof -
  from binary_search_finds [OF srt x] obtain y where
    y: "binary_search arena strs name_idx_of vec item = Some y" by blast
  from binary_search_Some [OF y] uniq have "y = x" by blast
  with y show ?thesis by simp
qed

lemma find_upt_first:
  assumes "a \<le> idx" "idx < b" "P idx" "\<forall>j. a \<le> j \<and> j < idx \<longrightarrow> \<not> P j"
  shows "find P [a ..< b] = Some idx"
proof -
  have "\<exists>i < length [a ..< b]. P ([a ..< b] ! i) \<and> idx = [a ..< b] ! i \<and> (\<forall>j < i. \<not> P ([a ..< b] ! j))"
  proof (intro exI [of _ "idx - a"] conjI allI impI)
    show "idx - a < length [a ..< b]" using assms by simp
    show "P ([a ..< b] ! (idx - a))" using assms by simp
    show "idx = [a ..< b] ! (idx - a)" using assms by simp
    fix j assume "j < idx - a"
    then have "a + j < idx" "a + j < b" using assms by simp_all
    then show "\<not> P ([a ..< b] ! j)" using assms(4) by simp
  qed
  then show ?thesis unfolding find_Some_iff .
qed

lemma member_offset_first:
  assumes bs: "binary_search (data_strings this) (strings this) Struc.name_idx (strucs this) struc = Some s"
    and rng: "member_idx s \<le> member_end s"
    and idx: "member_idx s \<le> idx" "idx < member_end s"
    and hit: "is_lowercase_equal member (string_at this (Member.name_idx (members this ! idx)))"
    and first: "\<forall>j. member_idx s \<le> j \<and> j < idx \<longrightarrow>
                  \<not> is_lowercase_equal member (string_at this (Member.name_idx (members this ! j)))"
  shows "member_offset this struc member = Some (Some (Member.offset (members this ! idx)))"
proof -
  let ?P = "\<lambda>j. is_lowercase_equal member (string_at this (Member.name_idx (members this ! j)))"
  have "find ?P [member_idx s ..< member_end s] = Some idx"
    using idx hit first by (intro find_upt_first) simp_all
  then show ?thesis
    by (simp add: member_offset_def bs member_offset_loop_find [OF rng])
qed

text \<open>
  Claim C6. In a built module, \<open>symbol_offset\<close> gives an offset only for a symbol whose
  name is the query, character by character, and it does give one whenever such a
  symbol exists. \<open>member_offset\<close> always returns. When it gives an offset, the
  structure found has exactly the name asked for, and the offset is that of the first
  member in the range of that structure whose name equals the query once both are
  lower-cased: it has the length of the query and compares equal to it under
  \<open>strncasecmp\<close>. Conversely, when the structure of that name is the only one of its
  name and a member in its range equals the query once both are lower-cased, the
  offset of the first such member is returned.
\<close>

theorem lookup_case_sensitivity:
  "(let this = built fname gid pdb_file in
     (\<forall>off. symbol_offset this symbol = Some off \<longrightarrow>
        (\<exists>s \<in> set (symbols this). string_at this (Sym.name_idx s) = symbol \<and> Sym.offset s = off)) \<and>
     ((\<exists>s \<in> set (symbols this). string_at this (Sym.name_idx s) = symbol) \<longrightarrow>
        symbol_offset this symbol \<noteq> None) \<and>
     (\<exists>r. member_offset this struc member = Some r) \<and>
     (\<forall>off. member_offset this struc member = Some (Some off) \<longrightarrow>
        (\<exists>s \<in> set (strucs this). string_at this (Struc.name_idx s) = struc \<and>
           (\<exists>idx. member_idx s \<le> idx \<and> idx < member_end s \<and> idx < length (members this) \<and>
              Member.offset (members this ! idx) = off \<and>
              (let nm = string_at this (Member.name_idx (members this ! idx)) in
                 length nm = length member \<and> strnicmp member nm (length member) = 0 \<and>
                 map tolower nm = map tolower member) \<and>
              (\<forall>j. member_idx s \<le> j \<and> j < idx \<longrightarrow>
                 map tolower (string_at this (Member.name_idx (members this ! j))) \<noteq> map tolower member)))) \<and>
     (\<forall>s idx. s \<in> set (strucs this) \<and> string_at this (Struc.name_idx s) = struc \<and>
        (\<forall>s' \<in> set (strucs this). string_at this (Struc.name_idx s') = struc \<longrightarrow> s' = s) \<and>
        member_idx s \<le> idx \<and> idx < member_end s \<and>
        map tolower (string_at this (Member.name_idx (members this ! idx))) = map tolower member \<and>
        (\<forall>j. member_idx s \<le> j \<and> j < idx \<longrightarrow>
           map tolower (string_at this (Member.name_idx (members this ! j))) \<noteq> map tolower member) \<longrightarrow>
        member_offset this struc member = Some (Some (Member.offset (members this ! idx)))))"
proof -
  let ?pdb = "built fname gid pdb_file"
  let ?nm = "\<lambda>j. string_at ?pdb (Member.name_idx (members ?pdb ! j))"
  have rng: "\<forall>s \<in> set (strucs ?pdb). member_idx s \<le> member_end s"
    using built_ranges [of fname gid pdb_file] by blast
  have inr: "j < length (members ?pdb)" if "s \<in> set (strucs ?pdb)" "j < member_end s" for s j
  proof -
    from built_ranges [of fname gid pdb_file] that(1)
    have "member_idx s \<le> member_end s \<and> member_end s \<le> length (members ?pdb)" by (rule bspec)
    with that(2) show ?thesis by simp
  qed
  have eqv: "is_lowercase_equal member (?nm j) = (map tolower (?nm j) = map tolower member)"
    if "s \<in> set (strucs ?pdb)" "j < member_end s" for s j
    using is_lowercase_equal_map [OF built_member_nul_free [OF inr [OF that]]] .
  have a: "\<exists>s \<in> set (symbols ?pdb). string_at ?pdb (Sym.name_idx s) = symbol \<and> Sym.offset s = off"
    if "symbol_offset ?pdb symbol = Some off" for off
    using that by (rule symbol_offset_Some)
  have b: "symbol_offset ?pdb symbol \<noteq> None"
    if "\<exists>s \<in> set (symbols ?pdb). string_at ?pdb (Sym.name_idx s) = symbol"
  proof -
    from that obtain s where s: "s \<in> set (symbols ?pdb)" "string_at ?pdb (Sym.name_idx s) = symbol"
      by blast
    from symbol_offset_finds [OF built_symbols_sorted s] show ?thesis by auto
  qed
  have c: "\<exists>r. member_offset ?pdb struc member = Some r"
    using rng by (rule member_offset_total)
  have d: "\<exists>s \<in> set (strucs ?pdb). string_at ?pdb (Struc.name_idx s) = struc \<and>
           (\<exists>idx. member_idx s \<le> idx \<and> idx < member_end s \<and> idx < length (members ?pdb) \<and>
              Member.offset (members ?pdb ! idx) = off \<and>
              (length (?nm idx) = length member \<and> strnicmp member (?nm idx) (length member) = 0 \<and>
                 map tolower (?nm idx) = map tolower member) \<and>
              (\<forall>j. member_idx s \<le> j \<and> j < idx \<longrightarrow> map tolower (?nm j) \<noteq> map tolower member))"
    if res: "member_offset ?pdb struc member = Some (Some off)" for off
  proof -
    from member_offset_Some [OF rng res] obtain s idx where
      s: "s \<in> set (strucs ?pdb)" "string_at ?pdb (Struc.name_idx s) = struc"
      and idx: "member_idx s \<le> idx" "idx < member_end s"
        "Member.offset (members ?pdb ! idx) = off"
        "is_lowercase_equal member (?nm idx)"
      and first: "\<forall>j. member_idx s \<le> j \<and> j < idx \<longrightarrow> \<not> is_lowercase_equal member (?nm j)"
      by blast
    from idx(4) have eq: "length (?nm idx) = length member" "strnicmp member (?nm idx) (length member) = 0"
      by (auto simp: is_lowercase_equal_def split: if_splits)
    have m: "map tolower (?nm idx) = map tolower member"
      using idx(4) eqv [OF s(1) idx(2)] by simp
    have f: "\<forall>j. member_idx s \<le> j \<and> j < idx \<longrightarrow> map tolower (?nm j) \<noteq> map tolower member"
    proof (intro allI impI)
      fix j assume j: "member_idx s \<le> j \<and> j < idx"
      with idx(2) have "j < member_end s" by simp
        from eqv [OF s(1) this] first [rule_format, OF j]
      show "map tolower (?nm j) \<noteq> map tolower member" by simp
    qed
    have "member_idx s \<le> idx \<and> idx < member_end s \<and> idx < length (members ?pdb) \<and>
              Member.offset (members ?pdb ! idx) = off \<and>
              (length (?nm idx) = length member \<and> strnicmp member (?nm idx) (length member) = 0 \<and>
                 map tolower (?nm idx) = map tolower member) \<and>
              (\<forall>j. member_idx s \<le> j \<and> j < idx \<longrightarrow> map tolower (?nm j) \<noteq> map tolower member)"
      by (intro conjI idx(1,2,3) inr [OF s(1) idx(2)] eq m f)
    then have "\<exists>idx. member_idx s \<le> idx \<and> idx < member_end s \<and> idx < length (members ?pdb) \<and>
              Member.offset (members ?pdb ! idx) = off \<and>
              (length (?nm idx) = length member \<and> strnicmp member (?nm idx) (length member) = 0 \<and>
                 map tolower (?nm idx) = map tolower member) \<and>
              (\<forall>j. member_idx s \<le> j \<and> j < idx \<longrightarrow> map tolower (?nm j) \<noteq> map tolower member)"
      by (rule exI)
    with s(2) have "string_at ?pdb (Struc.name_idx s) = struc \<and>
           (\<exists>idx. member_idx s \<le> idx \<and> idx < member_end s \<and> idx < length (members ?pdb) \<and>
              Member.offset (members ?pdb ! idx) = off \<and>
              (length (?nm idx) = length member \<and> strnicmp member (?nm idx) (length member) = 0 \<and>
                 map tolower (?nm idx) = map tolower member) \<and>
              (\<forall>j. member_idx s \<le> j \<and> j < idx \<longrightarrow> map tolower (?nm j) \<noteq> map tolower member))"
      by (rule conjI)
    then show ?thesis using s(1) by (rule bexI)
  qed
  have e: "member_offset ?pdb struc member = Some (Some (Member.offset (members ?pdb ! idx)))"
    if s: "s \<in> set (strucs ?pdb)" "string_at ?pdb (Struc.name_idx s) = struc"
      and uniq: "\<forall>s' \<in> set (strucs ?pdb). string_at ?pdb (Struc.name_idx s') = struc \<longrightarrow> s' = s"
      and idx: "member_idx s \<le> idx" "idx < member_end s"
      and m: "map tolower (?nm idx) = map tolower member"
      and f: "\<forall>j. member_idx s \<le> j \<and> j < idx \<longrightarrow> map tolower (?nm j) \<noteq> map tolower member"
    for s idx
  proof -
    have srt: "sorted (map (\<lambda>a. sv_chars (data_strings ?pdb) (strings ?pdb ! Struc.name_idx a)) (strucs ?pdb))"
      using built_strucs_sorted [of fname gid pdb_file] by (simp add: string_at_def)
    have key: "sv_chars (data_strings ?pdb) (strings ?pdb ! Struc.name_idx s) = struc"
      using s(2) by (simp add: string_at_def)
    have uniq': "\<forall>y \<in> set (strucs ?pdb).
        sv_chars (data_strings ?pdb) (strings ?pdb ! Struc.name_idx y) = struc \<longrightarrow> y = s"
      using uniq by (simp add: string_at_def)
    have bs: "binary_search (data_strings ?pdb) (strings ?pdb) Struc.name_idx (strucs ?pdb) struc = Some s"
      by (rule binary_search_unique [OF srt s(1) key uniq'])
    have le: "member_idx s \<le> member_end s" using rng s(1) by (rule bspec)
    have hit: "is_lowercase_equal member (?nm idx)"
      using eqv [OF s(1) idx(2)] m by simp
    have first: "\<forall>j. member_idx s \<le> j \<and> j < idx \<longrightarrow> \<not> is_lowercase_equal member (?nm j)"
    proof (intro allI impI)
      fix j assume j: "member_idx s \<le> j \<and> j < idx"
      with idx(2) have "j < member_end s" by simp
      from eqv [OF s(1) this] f [rule_format, OF j] show "\<not> is_lowercase_equal member (?nm j)" by simp
    qed
    show ?thesis by (rule member_offset_first [OF bs le idx hit first])
  qed
  show ?thesis
    unfolding Let_def
  proof (intro conjI allI impI)
    fix off assume "symbol_offset ?pdb symbol = Some off"
    then show "\<exists>s \<in> set (symbols ?pdb). string_at ?pdb (Sym.name_idx s) = symbol \<and> Sym.offset s = off"
      by (rule a)
  next
    assume "\<exists>s \<in> set (symbols ?pdb). string_at ?pdb (Sym.name_idx s) = symbol"
    then show "symbol_offset ?pdb symbol \<noteq> None" by (rule b)
  next
    show "\<exists>r. member_offset ?pdb struc member = Some r" by (rule c)
  next
    fix off assume "member_offset ?pdb struc member = Some (Some off)"
    from d [OF this]
    show "\<exists>s \<in> set (strucs ?pdb). string_at ?pdb (Struc.name_idx s) = struc \<and>
           (\<exists>idx. member_idx s \<le> idx \<and> idx < member_end s \<and> idx < length (members ?pdb) \<and>
              Member.offset (members ?pdb ! idx) = off \<and>
              (length (?nm idx) = length member \<and> strnicmp member (?nm idx) (length member) = 0 \<and>
                 map tolower (?nm idx) = map tolower member) \<and>
              (\<forall>j. member_idx s \<le> j \<and> j < idx \<longrightarrow> map tolower (?nm j) \<noteq> map tolower member))" .
  next
    fix s idx
    assume "s \<in> set (strucs ?pdb) \<and> string_at ?pdb (Struc.name_idx s) = struc \<and>
        (\<forall>s' \<in> set (strucs ?pdb). string_at ?pdb (Struc.name_idx s') = struc \<longrightarrow> s' = s) \<and>
        member_idx s \<le> idx \<and> idx < member_end s \<and>
        map tolower (?nm idx) = map tolower member \<and>
        (\<forall>j. member_idx s \<le> j \<and> j < idx \<longrightarrow> map tolower (?nm j) \<noteq> map tolower member)"
    then show "member_offset ?pdb struc member = Some (Some (Member.offset (members ?pdb ! idx)))"
      by (elim conjE) (rule e)
  qed
qed

theorem lookup_case_sensitivity_witness:
  "symbol_offset example_pdb ''alpha'' = Some 16 \<and>
   (\<exists>s \<in> set (symbols example_pdb).
      string_at example_pdb (Sym.name_idx s) = ''alpha'' \<and> Sym.offset s = 16) \<and>
   symbol_offset example_pdb ''ALPHA'' = None \<and>
   symbol_offset example_pdb ''Alpha'' = None \<and>
   strucs example_pdb = [\<lparr>Struc.name_idx = 3, size_bytes = 8, member_idx = 0, member_end = 2\<rparr>] \<and>
   string_at example_pdb 3 = ''_POINT'' \<and>
   string_at example_pdb (Member.name_idx (members example_pdb ! 0)) = ''X'' \<and>
   string_at example_pdb (Member.name_idx (members example_pdb ! 1)) = ''Y'' \<and>
   Member.offset (members example_pdb ! 1) = 4 \<and>
   map tolower ''Y'' = map tolower ''y'' \<and>
   map tolower ''X'' \<noteq> map tolower ''y'' \<and>
   member_offset example_pdb ''_POINT'' ''y'' = Some (Some 4) \<and>
   member_offset example_pdb ''_POINT'' ''Y'' = Some (Some 4) \<and>
   member_offset example_pdb ''_point'' ''Y'' = Some None \<and>
   member_offset example_pdb ''_POINT'' ''Z'' = Some None"
proof -
  let ?s = "\<lparr>Struc.name_idx = 3, size_bytes = 8, member_idx = 0, member_end = 2\<rparr>"
  have e: "symbol_offset example_pdb ''alpha'' = Some 16"
    "symbol_offset example_pdb ''ALPHA'' = None"
    "symbol_offset example_pdb ''Alpha'' = None"
    "member_offset example_pdb ''_POINT'' ''Y'' = Some (Some 4)"
    "member_offset example_pdb ''_point'' ''Y'' = Some None"
    "member_offset example_pdb ''_POINT'' ''Z'' = Some None"
    by code_simp+
  have st: "strucs example_pdb = [?s]"
    "string_at example_pdb 3 = ''_POINT''"
    "string_at example_pdb (Member.name_idx (members example_pdb ! 0)) = ''X''"
    "string_at example_pdb (Member.name_idx (members example_pdb ! 1)) = ''Y''"
    "Member.offset (members example_pdb ! 1) = 4"
    by code_simp+
  have lo: "map tolower ''Y'' = map tolower ''y''" "map tolower ''X'' \<noteq> map tolower ''y''"
    by code_simp+
  note inst = lookup_case_sensitivity
         [where fname = "''/sym/nt.pdb/G1/nt.pdb''" and gid = "''G1''" and pdb_file = example_file
            and symbol = "''alpha''" and struc = "''_POINT''" and member = "''y''",
          unfolded Let_def, folded example_pdb_def]
  from inst [THEN conjunct1, rule_format, OF e(1)]
  have sym: "\<exists>s \<in> set (symbols example_pdb).
      string_at example_pdb (Sym.name_idx s) = ''alpha'' \<and> Sym.offset s = 16" .
  have first: "\<forall>j. member_idx ?s \<le> j \<and> j < 1 \<longrightarrow>
      map tolower (string_at example_pdb (Member.name_idx (members example_pdb ! j))) \<noteq> map tolower ''y''"
    using st(3) lo(2) by auto
  have "member_offset example_pdb ''_POINT'' ''y'' =
          Some (Some (Member.offset (members example_pdb ! 1)))"
    using st(2,4) lo(1) first
    by (intro inst [THEN conjunct2, THEN conjunct2, THEN conjunct2, THEN conjunct2,
                    rule_format, of ?s 1]) (simp_all add: st(1))
  then have y: "member_offset example_pdb ''_POINT'' ''y'' = Some (Some 4)"
    by (simp only: st(5))
  show ?thesis
    by (intro conjI e sym st lo y)
qed

section \<open>Properties of the register access\<close>

text \<open>
  Claim C4, amended. \<open>registers::read\<close> and \<open>registers::read_msr\<close> return a plain
  64-bit value: the value read when the read of the channel succeeds, and 0 when it
  fails. A failed read is therefore not reported as an absent outcome.
\<close>

theorem registers_read_outcomes:
  "(read_register reg = Some v \<longrightarrow> registers_read read_register reg = v) \<and>
   (read_register reg = None \<longrightarrow> registers_read read_register reg = 0) \<and>
   (read_msr_register msr = Some w \<longrightarrow> registers_read_msr read_msr_register msr = w) \<and>
   (read_msr_register msr = None \<longrightarrow> registers_read_msr read_msr_register msr = 0)"
  by (simp add: registers_read_def registers_read_msr_def)

theorem registers_read_outcomes_witness:
  "failing_channel FDP_RAX_REGISTER = None \<and>
   registers_read failing_channel FDP_RAX_REGISTER = 0 \<and>
   zero_channel FDP_RSP_REGISTER = Some 0 \<and>
   registers_read zero_channel FDP_RSP_REGISTER = 0 \<and>
   failing_channel (0xC0000082 :: nat) = None \<and>
   registers_read_msr failing_channel (0xC0000082 :: nat) = 0"
  using registers_read_outcomes [of failing_channel FDP_RAX_REGISTER 0 failing_channel "0xC0000082 :: nat" 0]
        registers_read_outcomes [of zero_channel FDP_RSP_REGISTER 0 failing_channel "0xC0000082 :: nat" 0]
  by (simp add: failing_channel_def zero_channel_def)

text \<open>
  The claim as stated fails: a failing channel and a channel that reads 0 give the same
  result, for registers and for MSRs.
\<close>

theorem registers_read_failure_counterexample:
  "failing_channel FDP_RAX_REGISTER = None \<and>
   zero_channel FDP_RAX_REGISTER = Some 0 \<and>
   registers_read failing_channel FDP_RAX_REGISTER = registers_read zero_channel FDP_RAX_REGISTER \<and>
   failing_channel (0xC0000082 :: nat) = None \<and>
   zero_channel (0xC0000082 :: nat) = Some 0 \<and>
   registers_read_msr failing_channel (0xC0000082 :: nat) = registers_read_msr zero_channel (0xC0000082 :: nat)"
  by (simp add: failing_channel_def zero_channel_def registers_read_def registers_read_msr_def)

section \<open>Properties of the symbol file lookup\<close>

lemma make_pdb_unset:
  "getenv ''_NT_SYMBOL_PATH'' = None \<Longrightarrow> make_pdb fs getenv load_pdb_file module gid = None"
  by (simp add: make_pdb_def)

lemma make_pdb_set:
  "getenv ''_NT_SYMBOL_PATH'' = Some root \<Longrightarrow>
   make_pdb fs getenv load_pdb_file module gid =
     (let path = fs_div fs (fs_div fs (fs_div fs (fs_path fs root) (fs_path fs module))
                              (fs_path fs gid)) (fs_path fs module);
          file = fs_generic_string fs path
      in if fst (load_pdb_file file) \<noteq> PDB_STATE_OK then None
         else Some (built path gid (snd (load_pdb_file file))))"
  by (simp add: make_pdb_def Pdb_setup_def built_def Pdb_new_def Let_def case_prod_beta)

text \<open>
  Claim C9. Without \<open>_NT_SYMBOL_PATH\<close> in the environment \<open>make_pdb\<close> returns
  \<open>nullptr\<close> whatever the parser would answer, so without consulting it. With the
  variable set to \<open>root\<close>, the path of the module is
  \<open>fs::path(root) / module / guid / module\<close> and the parser is asked for the generic
  string of that path; the result depends on the parser at that file name only, it is
  \<open>nullptr\<close> exactly when the parser does not answer \<open>PDB_STATE_OK\<close> there, and
  otherwise the module built from the parsed file, whose path is the one above and
  whose id is the guid.
\<close>

theorem make_pdb_path:
  "(getenv ''_NT_SYMBOL_PATH'' = None \<longrightarrow>
      make_pdb fs getenv load_pdb_file module gid = None \<and>
      make_pdb fs getenv other_load module gid = make_pdb fs getenv load_pdb_file module gid) \<and>
   (getenv ''_NT_SYMBOL_PATH'' = Some root \<longrightarrow>
      (let path = fs_div fs (fs_div fs (fs_div fs (fs_path fs root) (fs_path fs module))
                               (fs_path fs gid)) (fs_path fs module);
           file = fs_generic_string fs path in
         ((make_pdb fs getenv load_pdb_file module gid = None) =
            (fst (load_pdb_file file) \<noteq> PDB_STATE_OK)) \<and>
         (fst (load_pdb_file file) = PDB_STATE_OK \<longrightarrow>
            make_pdb fs getenv load_pdb_file module gid =
              Some (built path gid (snd (load_pdb_file file))) \<and>
            filename (built path gid (snd (load_pdb_file file))) = path \<and>
            Pdb_id (built path gid (snd (load_pdb_file file))) = gid) \<and>
         (other_load file = load_pdb_file file \<longrightarrow>
            make_pdb fs getenv other_load module gid = make_pdb fs getenv load_pdb_file module gid)))"
proof -
  let ?path = "fs_div fs (fs_div fs (fs_div fs (fs_path fs root) (fs_path fs module))
                            (fs_path fs gid)) (fs_path fs module)"
  let ?file = "fs_generic_string fs ?path"
  have unset: "getenv ''_NT_SYMBOL_PATH'' = None \<longrightarrow>
      make_pdb fs getenv load_pdb_file module gid = None \<and>
      make_pdb fs getenv other_load module gid = make_pdb fs getenv load_pdb_file module gid"
    by (simp add: make_pdb_unset)
  have c: "filename (built ?path gid pdb_file) = ?path" "Pdb_id (built ?path gid pdb_file) = gid"
    for pdb_file
    by (simp_all add: built_filename built_guid Pdb_id_def)
  have set: "((make_pdb fs getenv load_pdb_file module gid = None) =
            (fst (load_pdb_file ?file) \<noteq> PDB_STATE_OK)) \<and>
         (fst (load_pdb_file ?file) = PDB_STATE_OK \<longrightarrow>
            make_pdb fs getenv load_pdb_file module gid =
              Some (built ?path gid (snd (load_pdb_file ?file))) \<and>
            filename (built ?path gid (snd (load_pdb_file ?file))) = ?path \<and>
            Pdb_id (built ?path gid (snd (load_pdb_file ?file))) = gid) \<and>
         (other_load ?file = load_pdb_file ?file \<longrightarrow>
            make_pdb fs getenv other_load module gid = make_pdb fs getenv load_pdb_file module gid)"
    if env: "getenv ''_NT_SYMBOL_PATH'' = Some root"
  proof -
    note eq = make_pdb_set [where getenv = getenv and root = root and fs = fs and module = module
                              and gid = gid, OF env, unfolded Let_def]
    have a: "(make_pdb fs getenv load_pdb_file module gid = None) =
               (fst (load_pdb_file ?file) \<noteq> PDB_STATE_OK)"
      by (simp add: eq)
    have b: "make_pdb fs getenv load_pdb_file module gid =
               Some (built ?path gid (snd (load_pdb_file ?file)))"
      if "fst (load_pdb_file ?file) = PDB_STATE_OK"
      using that by (simp add: eq)
    have d: "make_pdb fs getenv other_load module gid = make_pdb fs getenv load_pdb_file module gid"
      if "other_load ?file = load_pdb_file ?file"
      using that by (simp add: eq)
    show ?thesis using a b c d by blast
  qed
  show ?thesis unfolding Let_def using unset set by blast
qed

theorem make_pdb_path_witness:
  "example_getenv ''_NT_SYMBOL_PATH'' = Some ''/sym'' \<and>
   fs_generic_string example_fs
     (fs_div example_fs (fs_div example_fs (fs_div example_fs (fs_path example_fs ''/sym'')
        (fs_path example_fs ''nt.pdb'')) (fs_path example_fs ''G1'')) (fs_path example_fs ''nt.pdb''))
     = ''/sym/nt.pdb/G1/nt.pdb'' \<and>
   fst (example_load_pdb_file ''/sym/nt.pdb/G1/nt.pdb'') = PDB_STATE_OK \<and>
   make_pdb example_fs example_getenv example_load_pdb_file ''nt.pdb'' ''G1'' = Some example_pdb \<and>
   no_getenv ''_NT_SYMBOL_PATH'' = None \<and>
   make_pdb example_fs no_getenv example_load_pdb_file ''nt.pdb'' ''G1'' = None \<and>
   fst (example_load_pdb_file ''/sym/nt.pdb/G2/nt.pdb'') = PDB_STATE_ERR_FILE_OPEN \<and>
   make_pdb example_fs example_getenv example_load_pdb_file ''nt.pdb'' ''G2'' = None"
proof -
  have env: "example_getenv ''_NT_SYMBOL_PATH'' = Some ''/sym''"
    by (simp add: example_getenv_def)
  have noenv: "no_getenv ''_NT_SYMBOL_PATH'' = None"
    by (simp add: no_getenv_def)
  have gs: "fs_generic_string example_fs x = x" for x
    by (simp add: example_fs_def)
  have p1: "fs_div example_fs (fs_div example_fs (fs_div example_fs (fs_path example_fs ''/sym'')
        (fs_path example_fs ''nt.pdb'')) (fs_path example_fs ''G1'')) (fs_path example_fs ''nt.pdb'')
     = ''/sym/nt.pdb/G1/nt.pdb''"
    by (simp add: example_fs_def)
  have p2: "fs_div example_fs (fs_div example_fs (fs_div example_fs (fs_path example_fs ''/sym'')
        (fs_path example_fs ''nt.pdb'')) (fs_path example_fs ''G2'')) (fs_path example_fs ''nt.pdb'')
     = ''/sym/nt.pdb/G2/nt.pdb''"
    by (simp add: example_fs_def)
  have l1: "example_load_pdb_file ''/sym/nt.pdb/G1/nt.pdb'' = (PDB_STATE_OK, example_file)"
    by (simp add: example_load_pdb_file_def)
  have l2: "example_load_pdb_file ''/sym/nt.pdb/G2/nt.pdb'' = (PDB_STATE_ERR_FILE_OPEN, empty_file)"
    by (simp add: example_load_pdb_file_def)
  have a: "make_pdb example_fs example_getenv example_load_pdb_file ''nt.pdb'' ''G1'' = Some example_pdb"
    using make_pdb_path [of example_getenv example_fs example_load_pdb_file "''nt.pdb''" "''G1''"
                            example_load_pdb_file "''/sym''"]
    by (simp add: env p1 gs l1 Let_def example_pdb_def)
  have b: "make_pdb example_fs no_getenv example_load_pdb_file ''nt.pdb'' ''G1'' = None"
    using make_pdb_path [of no_getenv example_fs example_load_pdb_file "''nt.pdb''" "''G1''"
                            example_load_pdb_file "''/sym''"]
    by (simp add: noenv)
  have c: "make_pdb example_fs example_getenv example_load_pdb_file ''nt.pdb'' ''G2'' = None"
    using make_pdb_path [of example_getenv example_fs example_load_pdb_file "''nt.pdb''" "''G2''"
                            example_load_pdb_file "''/sym''"]
    by (simp add: env p2 gs l2 Let_def)
  show ?thesis using env noenv a b c by (simp add: l1 l2 p1 gs)
qed

section \<open>Properties of the PDB identification\<close>

lemma write_be32_read_le32:
  "write_be32 (read_le32 (a # b # c # d # rest)) = [d, c, b, a]"
  unfolding write_be32_def read_le32_def
  by (simp, intro conjI; rule bit_word_eqI) (auto simp: bit_simps dest: bit_imp_le_length)

lemma write_be16_read_le16:
  "write_be16 (read_le16 (a # b # rest)) = [b, a]"
  unfolding write_be16_def read_le16_def
  by (simp, intro conjI; rule bit_word_eqI) (auto simp: bit_simps dest: bit_imp_le_length)


lemma search_le: "search src pat \<le> length src"
  by (induction src) simp_all

lemma search_found:
  "search src pat < length src \<Longrightarrow> take (length pat) (drop (search src pat) src) = pat"
  by (induction src) (auto split: if_splits)

lemma search_first:
  "q < search src pat \<Longrightarrow> take (length pat) (drop q src) \<noteq> pat"
proof (induction src arbitrary: q)
  case Nil
  then show ?case by simp
next
  case (Cons x xs)
  then show ?case by (cases q) (auto split: if_splits)
qed

lemma search_eqI:
  "p < length src \<Longrightarrow> take (length pat) (drop p src) = pat \<Longrightarrow>
   (\<And>q. q < p \<Longrightarrow> take (length pat) (drop q src) \<noteq> pat) \<Longrightarrow> search src pat = p"
proof -
  assume p: "p < length src" "take (length pat) (drop p src) = pat"
    and first: "\<And>q. q < p \<Longrightarrow> take (length pat) (drop q src) \<noteq> pat"
  have "\<not> p < search src pat" using search_first [of p src pat] p(2) by blast
  then have le: "search src pat \<le> p" by simp
  with p(1) have "search src pat < length src" by simp
  from search_found [OF this] first have "\<not> search src pat < p" by blast
  with le show ?thesis by simp
qed

lemma memchr_Some:
  "memchr mem c n = Some k \<Longrightarrow>
   k < length mem \<and> k < n \<and> mem ! k = c \<and> (\<forall>j < k. mem ! j \<noteq> c)"
proof -
  assume r: "memchr mem c n = Some k"
  let ?tw = "takeWhile (\<lambda>b. b \<noteq> c) (take n mem)"
  from r have k: "k = length ?tw" "k < length (take n mem)"
    by (auto simp: memchr_def Let_def split: if_splits)
  then have lt: "length ?tw < length (take n mem)" by simp
  have at: "take n mem ! k = c"
    using nth_length_takeWhile [OF lt] k(1) by simp
  have before: "mem ! j \<noteq> c" if "j < k" for j
  proof -
    from that k have "?tw ! j \<noteq> c"
      using nth_mem [of j ?tw] set_takeWhileD [of "?tw ! j" "\<lambda>b. b \<noteq> c" "take n mem"] by simp
    moreover have "?tw ! j = take n mem ! j"
      using that k by (simp add: takeWhile_nth)
    ultimately show ?thesis using that k by simp
  qed
  from k at before show ?thesis by simp
qed

lemma memchr_SomeI:
  "k < length mem \<Longrightarrow> k < n \<Longrightarrow> mem ! k = c \<Longrightarrow> (\<And>j. j < k \<Longrightarrow> mem ! j \<noteq> c) \<Longrightarrow>
   memchr mem c n = Some k"
proof -
  assume k: "k < length mem" "k < n" "mem ! k = c" and before: "\<And>j. j < k \<Longrightarrow> mem ! j \<noteq> c"
  have "takeWhile (\<lambda>b. b \<noteq> c) (take n mem) = take k (take n mem)"
    using k before by (intro takeWhile_eq_take_P_nth) auto
  then have "length (takeWhile (\<lambda>b. b \<noteq> c) (take n mem)) = k"
    using k by simp
  then show ?thesis using k by (simp add: memchr_def Let_def)
qed

lemma memchr_None:
  "memchr mem c n = None \<Longrightarrow> j < n \<Longrightarrow> j < length mem \<Longrightarrow> mem ! j \<noteq> c"
proof -
  assume r: "memchr mem c n = None" and j: "j < n" "j < length mem"
  let ?tw = "takeWhile (\<lambda>b. b \<noteq> c) (take n mem)"
  from r have "\<not> length ?tw < min n (length mem)"
    by (auto simp: memchr_def Let_def split: if_splits)
  moreover have "length ?tw \<le> length (take n mem)" by (rule length_takeWhile_le)
  ultimately have "length ?tw = length (take n mem)"
    by (cases "n \<le> length mem") (auto simp: min_def)
  then have "?tw = take n mem"
    by (metis takeWhile_eq_take take_all order_refl)
  then have "\<forall>b \<in> set (take n mem). b \<noteq> c"
    by (metis set_takeWhileD)
  moreover have "take n mem ! j \<in> set (take n mem)"
    using j by (intro nth_mem) simp
  moreover have "take n mem ! j = mem ! j" using j by simp
  ultimately show ?thesis by metis
qed

lemma length_hex_convert: "length (hex_convert chars src) = 2 * length src"
  by (induction src) (simp_all add: hex_convert_def)

lemma to_string_nonempty: "to_string n \<noteq> []"
  by (subst to_string.simps) simp

lemma read_le32_plus:
  "read_le32 (a # b # c # d # rest) =
     (ucast a :: 32 word) + push_bit 8 (ucast b) + push_bit 16 (ucast c) + push_bit 24 (ucast d)"
proof -
  let ?A = "ucast a :: 32 word" and ?B = "push_bit 8 (ucast b) :: 32 word"
  and ?C = "push_bit 16 (ucast c) :: 32 word" and ?D = "push_bit 24 (ucast d) :: 32 word"
  have 1: "?A + ?B = ?A OR ?B"
    by (rule disjunctive_add_eq_or, rule bit_word_eqI)
       (auto simp: bit_simps dest: bit_imp_le_length)
  have 2: "(?A OR ?B) + ?C = (?A OR ?B) OR ?C"
    by (rule disjunctive_add_eq_or, rule bit_word_eqI)
       (auto simp: bit_simps dest: bit_imp_le_length)
  have 3: "((?A OR ?B) OR ?C) + ?D = ((?A OR ?B) OR ?C) OR ?D"
    by (rule disjunctive_add_eq_or, rule bit_word_eqI)
       (auto simp: bit_simps dest: bit_imp_le_length)
  have "read_le32 (a # b # c # d # rest) = ((?A OR ?B) OR ?C) OR ?D"
    by (simp add: read_le32_def or.assoc)
  also have "\<dots> = ((?A OR ?B) OR ?C) + ?D" by (simp only: 3)
  also have "\<dots> = ((?A OR ?B) + ?C) + ?D" by (simp only: 2)
  also have "\<dots> = ((?A + ?B) + ?C) + ?D" by (simp only: 1)
  finally show ?thesis .
qed

lemma unat_read_le32:
  "unat (read_le32 (a # b # c # d # rest)) =
     unat a + 2 ^ 8 * unat b + 2 ^ 16 * unat c + 2 ^ 24 * unat d"
proof -
  let ?n = "unat a + 2 ^ 8 * unat b + 2 ^ 16 * unat c + 2 ^ 24 * unat d"
  have bounds: "unat a < 2 ^ 8" "unat b < 2 ^ 8" "unat c < 2 ^ 8" "unat d < 2 ^ 8"
    using unsigned_less [of a, where 'a = nat] unsigned_less [of b, where 'a = nat]
      unsigned_less [of c, where 'a = nat] unsigned_less [of d, where 'a = nat] by simp_all
  then have lt: "?n < 2 ^ 32" by simp
  have "read_le32 (a # b # c # d # rest) = (of_nat ?n :: 32 word)"
    by (simp add: read_le32_plus push_bit_eq_mult)
  then have "unat (read_le32 (a # b # c # d # rest)) = ?n mod 2 ^ 32"
    by (simp only: unat_of_nat) simp
  with lt show ?thesis by simp
qed

lemma drop_four:
  "n + 4 \<le> length xs \<Longrightarrow>
   drop n xs = xs ! n # xs ! (n + 1) # xs ! (n + 2) # xs ! (n + 3) # drop (n + 4) xs"
  by (simp add: Cons_nth_drop_Suc eval_nat_numeral)

lemma drop_two:
  "n + 2 \<le> length xs \<Longrightarrow> drop n xs = xs ! n # xs ! (n + 1) # drop (n + 2) xs"
  by (simp add: Cons_nth_drop_Suc eval_nat_numeral)

lemma decode_guid:
  assumes "24 \<le> length hdr"
  shows "write_be32 (read_le32 (drop 4 hdr)) @ write_be16 (read_le16 (drop 8 hdr))
           @ write_be16 (read_le16 (drop 10 hdr)) @ take 8 (drop 12 hdr) = rsds_guid hdr"
proof -
  have a: "write_be32 (read_le32 (drop 4 hdr)) = [hdr ! 7, hdr ! 6, hdr ! 5, hdr ! 4]"
    using assms drop_four [of 4 hdr] by (simp add: write_be32_read_le32)
  have b: "write_be16 (read_le16 (drop 8 hdr)) = [hdr ! 9, hdr ! 8]"
    using assms drop_two [of 8 hdr] by (simp add: write_be16_read_le16)
  have c: "write_be16 (read_le16 (drop 10 hdr)) = [hdr ! 11, hdr ! 10]"
    using assms drop_two [of 10 hdr] by (simp add: write_be16_read_le16)
  show ?thesis by (simp add: a b c rsds_guid_def)
qed

lemma decode_age:
  assumes "24 \<le> length hdr"
  shows "unat (read_le32 (drop 20 hdr)) = rsds_age hdr"
  using assms drop_four [of 20 hdr] by (simp add: unat_read_le32 rsds_age_def)

text \<open>
  The header fields lie in the first 24 bytes of a header, so they are read from the
  buffer whatever follows it.
\<close>

lemma rsds_fields_append:
  assumes "24 \<le> length hdr"
  shows "rsds_guid (hdr @ ext) = rsds_guid hdr" "rsds_age (hdr @ ext) = rsds_age hdr"
  using assms by (simp_all add: rsds_guid_def rsds_age_def nth_append)

lemma drop_memory:
  "p \<le> length src \<Longrightarrow> drop p (src @ ext) = drop p src @ ext"
  by simp

lemma nth_drop_memory:
  "p \<le> length src \<Longrightarrow>
   drop (p + 24) (src @ map beyond [0 ..< 24]) ! j = (src @ map beyond [0 ..< 24]) ! (p + 24 + j)"
  by (subst nth_drop) simp_all

lemma length_drop_memory:
  "p \<le> length src \<Longrightarrow> length (drop (p + 24) (src @ map beyond [0 ..< 24])) = length src - p"
  by simp

text \<open>One turn of the loop of \<open>read_pdb\<close>, at the first occurrence of the magic.\<close>

lemma read_pdb_turn:
  assumes p: "search src rsds_magic = p" "p < length src" "p + 26 \<le> length src"
    and nul: "k < length src - p" "(src @ map beyond [0 ..< 24]) ! (p + 24 + k) = 0"
      "\<And>j. j < k \<Longrightarrow> (src @ map beyond [0 ..< 24]) ! (p + 24 + j) \<noteq> 0"
  shows "read_pdb beyond src =
     (case read_pdb_name (take k (drop (p + 24) (src @ map beyond [0 ..< 24]))) of
        Some n \<Rightarrow> Inr \<lparr>PdbCtx.guid = hex_convert chars_upper (rsds_guid (drop p src))
                           @ to_string (rsds_age (drop p src)), PdbCtx.name = n\<rparr>
      | None \<Rightarrow> read_pdb beyond (drop (p + 1) src))"
proof -
  let ?hdr = "drop p src"
  let ?mem = "src @ map beyond [0 ..< 24]"
  have len: "24 \<le> length ?hdr" using p(3) by simp
  have sz: "\<not> length src - p < 26" using p(3) by simp
  have ple: "p \<le> length src" using p(2) by simp
  have m: "memchr (drop (p + 24) ?mem) 0 (length src - p) = Some k"
  proof (rule memchr_SomeI)
    show "k < length (drop (p + 24) ?mem)" unfolding length_drop_memory [OF ple] by (rule nul(1))
    show "k < length src - p" by (rule nul(1))
    show "drop (p + 24) ?mem ! k = 0" unfolding nth_drop_memory [OF ple] by (rule nul(2))
    show "drop (p + 24) ?mem ! j \<noteq> 0" if "j < k" for j
      unfolding nth_drop_memory [OF ple] using that by (rule nul(3))
  qed
  have ne: "p \<noteq> length src" using p(2) by simp
  show ?thesis
    by (subst read_pdb.simps [of beyond src])
       (simp del: drop_drop drop_append upt_Suc add: Let_def p(1) ne sz m decode_guid [OF len] decode_age [OF len]
             split: option.splits)
qed

lemma read_pdb_missing:
  assumes p: "search src rsds_magic = p" "p + 26 \<le> length src"
    and nul: "\<And>j. j < length src - p \<Longrightarrow> (src @ map beyond [0 ..< 24]) ! (p + 24 + j) \<noteq> 0"
  shows "read_pdb beyond src = Inl missing_null_byte"
proof -
  let ?mem = "src @ map beyond [0 ..< 24]"
  have sz: "\<not> length src - p < 26" using p(2) by simp
  have ne: "p \<noteq> length src" using p(2) by simp
  have "memchr (drop (p + 24) ?mem) 0 (length src - p) = None"
  proof (cases "memchr (drop (p + 24) ?mem) 0 (length src - p)")
    case None
    then show ?thesis .
  next
    case (Some k)
    have ple: "p \<le> length src" using p(2) by simp
    from memchr_Some [OF Some] have "k < length src - p" "drop (p + 24) ?mem ! k = 0" by blast+
    then have "k < length src - p" "?mem ! (p + 24 + k) = 0"
      unfolding nth_drop_memory [OF ple] by blast+
    with nul show ?thesis by blast
  qed
  then show ?thesis
    by (subst read_pdb.simps [of beyond src])
       (simp del: drop_drop drop_append upt_Suc add: Let_def p(1) ne sz)
qed

lemma read_pdb_Inr_turn:
  assumes r: "read_pdb beyond src = Inr pdb"
  shows "\<exists>k. search src rsds_magic < length src \<and>
             search src rsds_magic + 26 \<le> length src \<and>
             k < length src - search src rsds_magic \<and>
             (src @ map beyond [0 ..< 24]) ! (search src rsds_magic + 24 + k) = 0 \<and>
             (\<forall>j < k. (src @ map beyond [0 ..< 24]) ! (search src rsds_magic + 24 + j) \<noteq> 0)"
proof -
  let ?p = "search src rsds_magic"
  let ?mem = "src @ map beyond [0 ..< 24]"
  from r have ne: "?p \<noteq> length src"
    by (subst (asm) read_pdb.simps) (auto simp: Let_def)
  with search_le [of src rsds_magic] have lt: "?p < length src" by simp
  from r ne have sz: "\<not> length src - ?p < 4 + 16 + 4 + 2"
    by (subst (asm) read_pdb.simps) (auto simp: Let_def split: if_splits)
  from r ne sz obtain k where m: "memchr (drop (?p + (4 + 16 + 4)) (src @ map beyond [0 ..< 4 + 16 + 4])) 0 (length src - ?p) = Some k"
    by (subst (asm) read_pdb.simps) (auto simp del: drop_append upt_Suc simp: Let_def split: if_splits option.splits)
  then have m': "memchr (drop (?p + 24) ?mem) 0 (length src - ?p) = Some k" by simp
  from sz have p26: "?p + 26 \<le> length src" by simp
  have ple: "?p \<le> length src" by (rule search_le)
  from memchr_Some [OF m'] have k: "k < length src - ?p"
    "drop (?p + 24) ?mem ! k = 0" "\<forall>j < k. drop (?p + 24) ?mem ! j \<noteq> 0"
    by blast+
  from k(2,3) have "?mem ! (?p + 24 + k) = 0" "\<forall>j < k. ?mem ! (?p + 24 + j) \<noteq> 0"
    unfolding nth_drop_memory [OF ple] by blast+
  then show ?thesis using lt p26 k(1) by blast
qed

lemma length_rsds_magic: "length rsds_magic = 4"
  by (simp add: rsds_magic_def)

lemma isprint_name:
  "read_pdb_name bytes = Some n \<Longrightarrow>
   n = map (\<lambda>b. char_of (unat b)) bytes \<and> (\<forall>j < length bytes. isprint (bytes ! j))"
  by (auto simp: read_pdb_name_def list_all_length split: if_splits)

lemma header_nth:
  "p \<le> length src \<Longrightarrow> drop p (src @ ext) ! i = (src @ ext) ! (p + i)"
  by (subst nth_drop) simp_all

lemma header_in_memory:
  assumes p: "p + 26 \<le> length src" and k: "k < length src - p"
    and magic: "take 4 (drop p src) = rsds_magic"
    and z: "(src @ map beyond [0 ..< 24]) ! (p + 24 + k) = 0"
      "\<forall>j < k. (src @ map beyond [0 ..< 24]) ! (p + 24 + j) \<noteq> 0"
    and nm: "read_pdb_name (take k (drop (p + 24) (src @ map beyond [0 ..< 24]))) = Some n"
  shows "rsds_header (drop p (src @ map beyond [0 ..< 24])) k
           \<lparr>PdbCtx.guid = hex_convert chars_upper (rsds_guid (drop p src))
                           @ to_string (rsds_age (drop p src)), PdbCtx.name = n\<rparr>"
proof -
  let ?mem = "src @ map beyond [0 ..< 24]"
  have ple: "p \<le> length src" using p by simp
  have dm: "drop p ?mem = drop p src @ map beyond [0 ..< 24]" using ple by simp
  have len: "24 \<le> length (drop p src)" using p by simp
  have a: "take 4 (drop p ?mem) = rsds_magic"
    unfolding dm using magic p by simp
  have b: "24 + k < length (drop p ?mem)" using k p by simp
  have c: "drop p ?mem ! (24 + k) = 0"
    unfolding header_nth [OF ple] using z(1) by (simp add: add.assoc)
  from isprint_name [OF nm]
  have n: "n = map (\<lambda>b. char_of (unat b)) (take k (drop (p + 24) ?mem))"
    and pr: "\<forall>j < length (take k (drop (p + 24) ?mem)). isprint (take k (drop (p + 24) ?mem) ! j)"
    by blast+
  have d: "drop p ?mem ! (24 + j) \<noteq> 0 \<and> isprint (drop p ?mem ! (24 + j))" if j: "j < k" for j
  proof -
    have 1: "drop p ?mem ! (24 + j) = ?mem ! (p + 24 + j)"
      unfolding header_nth [OF ple] by (simp add: add.assoc)
    have "j < length (take k (drop (p + 24) ?mem))"
      using j k unfolding length_take length_drop_memory [OF ple] by simp
    with pr have "isprint (take k (drop (p + 24) ?mem) ! j)" by blast
    moreover have "take k (drop (p + 24) ?mem) ! j = ?mem ! (p + 24 + j)"
      using j unfolding nth_take [OF j] nth_drop_memory [OF ple] by simp
    ultimately show ?thesis using z(2) j unfolding 1 by simp
  qed
  have e: "take k (drop 24 (drop p ?mem)) = take k (drop (p + 24) ?mem)"
    by (simp only: drop_drop add.commute)
  have f: "rsds_guid (drop p ?mem) = rsds_guid (drop p src)"
    "rsds_age (drop p ?mem) = rsds_age (drop p src)"
    unfolding dm by (rule rsds_fields_append [OF len])+
  show ?thesis
    unfolding rsds_header_def PdbCtx.simps e f
    using a b c d n by blast
qed

lemma read_pdb_sound:
  "read_pdb beyond src = Inr pdb \<Longrightarrow>
   \<exists>p name_len. p + 26 \<le> length src \<and> name_len < length src - p \<and>
      rsds_header (drop p (src @ map beyond [0 ..< 24])) name_len pdb"
proof (induction "length src" arbitrary: src rule: less_induct)
  case less
  let ?p = "search src rsds_magic"
  let ?mem = "src @ map beyond [0 ..< 24]"
  from read_pdb_Inr_turn [OF less.prems] obtain k where
    k: "?p < length src" "?p + 26 \<le> length src" "k < length src - ?p"
       "?mem ! (?p + 24 + k) = 0" "\<forall>j < k. ?mem ! (?p + 24 + j) \<noteq> 0"
    by blast
  have turn: "read_pdb beyond src =
     (case read_pdb_name (take k (drop (?p + 24) ?mem)) of
        Some n \<Rightarrow> Inr \<lparr>PdbCtx.guid = hex_convert chars_upper (rsds_guid (drop ?p src))
                           @ to_string (rsds_age (drop ?p src)), PdbCtx.name = n\<rparr>
      | None \<Rightarrow> read_pdb beyond (drop (?p + 1) src))"
    using k by (intro read_pdb_turn) simp_all
  show ?case
  proof (cases "read_pdb_name (take k (drop (?p + 24) ?mem))")
    case None
    with turn less.prems have r: "read_pdb beyond (drop (?p + 1) src) = Inr pdb" by simp
    have "length (drop (?p + 1) src) < length src" using k(1) by simp
    from less.hyps [OF this r] obtain q name_len where
      q: "q + 26 \<le> length (drop (?p + 1) src)" "name_len < length (drop (?p + 1) src) - q"
         "rsds_header (drop q (drop (?p + 1) src @ map beyond [0 ..< 24])) name_len pdb"
      by blast
    have "drop (?p + 1) src @ map beyond [0 ..< 24] = drop (?p + 1) ?mem"
      using k(1) by simp
    with q(3) have "rsds_header (drop (q + (?p + 1)) ?mem) name_len pdb"
      by (simp only: drop_drop)
    moreover from q(1,2) have "(q + (?p + 1)) + 26 \<le> length src"
      "name_len < length src - (q + (?p + 1))" by simp_all
    ultimately show ?thesis by blast
  next
    case (Some n)
    with turn less.prems have pdb: "pdb = \<lparr>PdbCtx.guid = hex_convert chars_upper (rsds_guid (drop ?p src))
                           @ to_string (rsds_age (drop ?p src)), PdbCtx.name = n\<rparr>"
      by simp
    have magic: "take 4 (drop ?p src) = rsds_magic"
      using search_found [OF k(1)] by (simp add: length_rsds_magic)
    have "rsds_header (drop ?p ?mem) k pdb"
      unfolding pdb by (rule header_in_memory [OF k(2,3) magic k(4,5) Some])
    with k(2,3) show ?thesis by blast
  qed
qed

lemma read_pdb_first:
  assumes p: "p + 26 \<le> length src" and nl: "name_len < length src - p"
    and hdr: "rsds_header (drop p (src @ map beyond [0 ..< 24])) name_len pdb"
    and first: "\<forall>q < p. take 4 (drop q src) \<noteq> rsds_magic"
  shows "read_pdb beyond src = Inr pdb"
proof -
  let ?mem = "src @ map beyond [0 ..< 24]"
  from p have lt: "p < length src" and ple: "p \<le> length src" by simp_all
  have dm: "drop p ?mem = drop p src @ map beyond [0 ..< 24]" using ple by simp
  have len: "24 \<le> length (drop p src)" using p by simp
  from hdr have h: "take 4 (drop p ?mem) = rsds_magic"
    "drop p ?mem ! (24 + name_len) = 0"
    "\<forall>j < name_len. drop p ?mem ! (24 + j) \<noteq> 0 \<and> isprint (drop p ?mem ! (24 + j))"
    "PdbCtx.name pdb = map (\<lambda>b. char_of (unat b)) (take name_len (drop 24 (drop p ?mem)))"
    "PdbCtx.guid pdb = hex_convert chars_upper (rsds_guid (drop p ?mem)) @ to_string (rsds_age (drop p ?mem))"
    unfolding rsds_header_def by blast+
  have magic: "take 4 (drop p src) = rsds_magic"
    using h(1) p unfolding dm by simp
  have s: "search src rsds_magic = p"
    using lt magic first by (intro search_eqI) (simp_all add: length_rsds_magic)
  have z: "?mem ! (p + 24 + name_len) = 0"
    using h(2) unfolding header_nth [OF ple] by (simp add: add.assoc)
  have nz: "?mem ! (p + 24 + j) \<noteq> 0" if "j < name_len" for j
    using h(3) that unfolding header_nth [OF ple] by (simp add: add.assoc)
  have e: "take name_len (drop 24 (drop p ?mem)) = take name_len (drop (p + 24) ?mem)"
    by (simp only: drop_drop add.commute)
  have "isprint (take name_len (drop (p + 24) ?mem) ! j)"
    if j: "j < length (take name_len (drop (p + 24) ?mem))" for j
  proof -
    from j have jn: "j < name_len" by simp
    have "take name_len (drop (p + 24) ?mem) ! j = drop p ?mem ! (24 + j)"
      unfolding nth_take [OF jn] nth_drop_memory [OF ple] header_nth [OF ple]
      by (simp add: add.assoc)
    with h(3) jn show ?thesis by simp
  qed
  then have "list_all isprint (take name_len (drop (p + 24) ?mem))"
    unfolding list_all_length by blast
  then have nm: "read_pdb_name (take name_len (drop (p + 24) ?mem)) = Some (PdbCtx.name pdb)"
    unfolding read_pdb_name_def h(4) e by simp
  have f: "rsds_guid (drop p ?mem) = rsds_guid (drop p src)"
    "rsds_age (drop p ?mem) = rsds_age (drop p src)"
    unfolding dm by (rule rsds_fields_append [OF len])+
  have "read_pdb beyond src =
     (case read_pdb_name (take name_len (drop (p + 24) ?mem)) of
        Some n \<Rightarrow> Inr \<lparr>PdbCtx.guid = hex_convert chars_upper (rsds_guid (drop p src))
                           @ to_string (rsds_age (drop p src)), PdbCtx.name = n\<rparr>
      | None \<Rightarrow> read_pdb beyond (drop (p + 1) src))"
    by (rule read_pdb_turn [OF s lt p nl z nz])
  also have "\<dots> = Inr \<lparr>PdbCtx.guid = hex_convert chars_upper (rsds_guid (drop p src))
                           @ to_string (rsds_age (drop p src)), PdbCtx.name = PdbCtx.name pdb\<rparr>"
    by (simp only: nm option.case)
  also have "\<dots> = Inr pdb"
    using h(5) unfolding f by (cases pdb) simp
  finally show ?thesis .
qed

text \<open>
  A header that lies in the buffer together with the zero byte that ends its name is
  the same header in memory, whatever follows the buffer.
\<close>

lemma rsds_header_in_buffer:
  assumes hdr: "rsds_header (drop p src) name_len pdb"
  shows "name_len < length src - p \<and> rsds_header (drop p (src @ ext)) name_len pdb"
proof -
  from hdr have l: "24 + name_len < length (drop p src)" by (simp add: rsds_header_def)
  then have ple: "p \<le> length src" and nl: "name_len < length src - p" by simp_all
  have dm: "drop p (src @ ext) = drop p src @ ext" using ple by simp
  have len: "24 \<le> length (drop p src)" using l by simp
  have n: "(drop p src @ ext) ! i = drop p src ! i" if "i \<le> 24 + name_len" for i
    using that l by (simp add: nth_append)
  have t4: "take 4 (drop p src @ ext) = take 4 (drop p src)" using l by simp
  have tn: "take name_len (drop 24 (drop p src @ ext)) = take name_len (drop 24 (drop p src))"
    using l by simp
  have "rsds_header (drop p src @ ext) name_len pdb"
    using hdr l unfolding rsds_header_def t4 tn rsds_fields_append [OF len]
    by (auto simp: n)
  with nl show ?thesis unfolding dm by simp
qed

text \<open>The header at the first magic is passed over when its name is not printable.\<close>

lemma read_pdb_retry:
  assumes p: "p + 26 \<le> length src" "take 4 (drop p src) = rsds_magic"
    and first: "\<forall>q < p. take 4 (drop q src) \<noteq> rsds_magic"
    and k: "k < length src - p" "(src @ map beyond [0 ..< 24]) ! (p + 24 + k) = 0"
      "\<forall>j < k. (src @ map beyond [0 ..< 24]) ! (p + 24 + j) \<noteq> 0"
    and np: "j < k" "\<not> isprint ((src @ map beyond [0 ..< 24]) ! (p + 24 + j))"
  shows "read_pdb beyond src = read_pdb beyond (drop (p + 1) src)"
proof -
  let ?mem = "src @ map beyond [0 ..< 24]"
  from p have lt: "p < length src" and ple: "p \<le> length src" by simp_all
  have s: "search src rsds_magic = p"
    using lt p(2) first by (intro search_eqI) (simp_all add: length_rsds_magic)
  have nz: "?mem ! (p + 24 + i) \<noteq> 0" if "i < k" for i using k(3) that by blast
  have jl: "j < length (take k (drop (p + 24) ?mem))"
    using np(1) k(1) unfolding length_take length_drop_memory [OF ple] by simp
  have "take k (drop (p + 24) ?mem) ! j = ?mem ! (p + 24 + j)"
    unfolding nth_take [OF np(1)] nth_drop_memory [OF ple] by simp
  with np(2) jl have "\<not> list_all isprint (take k (drop (p + 24) ?mem))"
    unfolding list_all_length by metis
  then have nm: "read_pdb_name (take k (drop (p + 24) ?mem)) = None"
    by (simp add: read_pdb_name_def)
  have "read_pdb beyond src =
     (case read_pdb_name (take k (drop (p + 24) ?mem)) of
        Some n \<Rightarrow> Inr \<lparr>PdbCtx.guid = hex_convert chars_upper (rsds_guid (drop p src))
                           @ to_string (rsds_age (drop p src)), PdbCtx.name = n\<rparr>
      | None \<Rightarrow> read_pdb beyond (drop (p + 1) src))"
    by (rule read_pdb_turn [OF s lt p(1) k(1,2) nz])
  also have "\<dots> = read_pdb beyond (drop (p + 1) src)"
    by (simp only: nm option.case)
  finally show ?thesis .
qed

lemma identify_pdb_read:
  "identify_pdb find_debug_codeview read_all beyond span =
     (let span_read = (case find_debug_codeview span of Some d \<Rightarrow> d | None \<Rightarrow> span)
      in case read_all (span_t.addr span_read) (span_size span_read) of
           None \<Rightarrow> None
         | Some buffer \<Rightarrow>
             (case read_pdb beyond (take (span_size span_read) buffer) of
                Inl e \<Rightarrow> None
              | Inr pdb \<Rightarrow> Some \<lparr>Identity.name = PdbCtx.name pdb, id_ = PdbCtx.guid pdb\<rparr>))"
  by (simp add: identify_pdb_def Let_def)

lemma rsds_header_guid:
  "rsds_header hdr name_len pdb \<Longrightarrow>
   32 < length (PdbCtx.guid pdb) \<and>
   take 32 (PdbCtx.guid pdb) = hex_convert chars_upper (rsds_guid hdr) \<and>
   drop 32 (PdbCtx.guid pdb) = to_string (rsds_age hdr)"
proof -
  assume h: "rsds_header hdr name_len pdb"
  then have "24 < length hdr" by (simp add: rsds_header_def)
  then have len: "length (rsds_guid hdr) = 16"
    by (simp add: rsds_guid_def)
  have "length (hex_convert chars_upper (rsds_guid hdr)) = 32"
    by (simp add: length_hex_convert len)
  moreover have "to_string (rsds_age hdr) \<noteq> []" by (rule to_string_nonempty)
  ultimately show ?thesis using h by (simp add: rsds_header_def)
qed

text \<open>
  Claim C5. For a header whose name ends inside the image, the lemmas above give what
  the claim says: \<open>read_pdb\<close> returns the identity of the first header with a
  printable name, the name being the bytes from offset 24 of the header up to the
  first zero byte and the guid string the 32 upper-case hexadecimal characters of the
  GUID, its first three fields swapped to big-endian, followed by the age in decimal.
  The scan for the zero byte, however, covers 24 bytes of memory past the end of the
  image. On the sample image cut right after the last character of the name,
  \<open>read_pdb\<close> returns the name \<open>nt.pdbX\<close> when the memory after the buffer holds
  \<open>X\<close> and then a zero byte, a name that is not made of bytes of the image, and it
  fails when that memory holds no zero byte; \<open>identify_pdb\<close> hands the name through.
  On the whole sample image, and on an image whose first header has a name that is not
  printable, the result does not depend on the memory after the buffer.
\<close>

theorem read_pdb_reads_past_image:
  "length truncated_image = 32 \<and>
   take 4 (drop 2 truncated_image) = rsds_magic \<and>
   drop 26 truncated_image = [0x6E, 0x74, 0x2E, 0x70, 0x64, 0x62] \<and>
   read_pdb beyond_X truncated_image =
     Inr \<lparr>PdbCtx.guid = ''0403020106050807090A0B0C0D0E0FA0258'', PdbCtx.name = ''nt.pdbX''\<rparr> \<and>
   read_pdb beyond_no_zero truncated_image = Inl missing_null_byte \<and>
   identify_pdb no_debug_codeview example_read_all beyond_X truncated_span =
     Some \<lparr>Identity.name = ''nt.pdbX'', id_ = ''0403020106050807090A0B0C0D0E0FA0258''\<rparr> \<and>
   identify_pdb no_debug_codeview example_read_all beyond_no_zero truncated_span = None \<and>
   read_pdb beyond_X example_image = Inr example_ctx \<and>
   read_pdb beyond_no_zero example_image = Inr example_ctx \<and>
   identify_pdb no_debug_codeview example_read_all beyond_no_zero example_span =
     Some \<lparr>Identity.name = ''nt.pdb'', id_ = ''0403020106050807090A0B0C0D0E0FA0258''\<rparr> \<and>
   read_pdb zeros_beyond retry_image = Inr example_ctx \<and>
   read_pdb beyond_no_zero retry_image = Inr example_ctx"
proof -
  have cut: "length truncated_image = 32"
    "take 4 (drop 2 truncated_image) = rsds_magic"
    "drop 26 truncated_image = [0x6E, 0x74, 0x2E, 0x70, 0x64, 0x62]"
    by (simp_all add: truncated_image_def example_image_def rsds_magic_def)
  have past: "read_pdb beyond_X truncated_image =
     Inr \<lparr>PdbCtx.guid = ''0403020106050807090A0B0C0D0E0FA0258'', PdbCtx.name = ''nt.pdbX''\<rparr>"
    "read_pdb beyond_no_zero truncated_image = Inl missing_null_byte"
    "identify_pdb no_debug_codeview example_read_all beyond_X truncated_span =
       Some \<lparr>Identity.name = ''nt.pdbX'', id_ = ''0403020106050807090A0B0C0D0E0FA0258''\<rparr>"
    "identify_pdb no_debug_codeview example_read_all beyond_no_zero truncated_span = None"
    by code_simp+
  have inside: "read_pdb beyond_X example_image = Inr example_ctx"
    "read_pdb beyond_no_zero example_image = Inr example_ctx"
    "identify_pdb no_debug_codeview example_read_all beyond_no_zero example_span =
       Some \<lparr>Identity.name = ''nt.pdb'', id_ = ''0403020106050807090A0B0C0D0E0FA0258''\<rparr>"
    "read_pdb zeros_beyond retry_image = Inr example_ctx"
    "read_pdb beyond_no_zero retry_image = Inr example_ctx"
    by code_simp+
  show ?thesis by (intro conjI cut past inside)
qed

section \<open>Properties of the heap sanitizer\<close>

lemma half_add_size_16: "half_add_size = 16"
  by (simp add: half_add_size_def add_size_def)

lemma change_BaseAddress_guest:
  "snd (change_BaseAddress g i v) = (if write_arg_ok g then g\<lparr>args := (args g)(i := v)\<rparr> else g)"
  "fst (change_BaseAddress g i v) = write_arg_ok g"
  by (simp_all add: change_BaseAddress_def os_write_arg_def)

lemma add_size_32: "add_size = 32"
  by (simp add: add_size_def)

lemma change_Size_guest:
  "snd (change_Size g i v) = (if write_arg_ok g then g\<lparr>args := (args g)(i := v)\<rparr> else g)"
  "fst (change_Size g i v) = write_arg_ok g"
  by (simp_all add: change_Size_def os_write_arg_def)

lemma get_return_address_args [simp]:
  "get_return_address (g\<lparr>args := a\<rparr>) reader = get_return_address g reader"
  by (simp add: get_return_address_def regs_read_def Let_def)


lemma get_return_address_dangling:
  "regs_read g FDP_RSP_REGISTER \<noteq> 0 \<Longrightarrow> get_return_address g dangling_reader = undefined_behaviour"
  by (simp add: get_return_address_def)

lemma alloc_entry_filtered:
  "thread_current g = Some t \<Longrightarrow>
   is_present (threads_allocating d) t \<or> is_present (threads_reallocating d) t \<Longrightarrow>
   on_RtlpAllocateHeapInternal reader d g heap_handle sz = (returned 0, d, g)"
  by (auto simp: on_RtlpAllocateHeapInternal_def)

text \<open>
  An entry hit that passes the filter marks the thread and asks for the size to be
  rewritten before it reads the return address, so whatever that read gives.
\<close>

lemma alloc_entry_state:
  assumes t: "thread_current g = Some t"
    and nf: "\<not> is_present (threads_reallocating d) t" "\<not> is_present (threads_allocating d) t"
  shows "snd (snd (on_RtlpAllocateHeapInternal reader d g heap_handle sz)) =
           snd (change_Size g 1 (sz + 32))"
    and "threads_allocating (fst (snd (on_RtlpAllocateHeapInternal reader d g heap_handle sz))) =
           insert (thread_id t) (threads_allocating d)"
    and "threads_reallocating (fst (snd (on_RtlpAllocateHeapInternal reader d g heap_handle sz))) =
           threads_reallocating d"
    and "heap_datas (fst (snd (on_RtlpAllocateHeapInternal reader d g heap_handle sz))) = heap_datas d"
  using t nf
  by (simp_all add: on_RtlpAllocateHeapInternal_def Let_def case_prod_beta add_size_32
        split: behaviour.splits option.splits)

lemma alloc_entry_marks:
  assumes t: "thread_current g = Some t"
    and nf: "\<not> is_present (threads_reallocating d) t" "\<not> is_present (threads_allocating d) t"
  shows "is_present (threads_allocating (fst (snd (on_RtlpAllocateHeapInternal reader d g heap_handle sz)))) t"
  unfolding alloc_entry_state(2) [OF t nf] by (simp add: is_present_def)


lemma alloc_entry_dangling:
  assumes t: "thread_current g = Some t"
    and nf: "\<not> is_present (threads_reallocating d) t" "\<not> is_present (threads_allocating d) t"
    and go: "write_arg_ok g" "regs_read g FDP_RSP_REGISTER \<noteq> 0"
  shows "fst (on_RtlpAllocateHeapInternal dangling_reader d g heap_handle sz) = undefined_behaviour"
  using t nf go
  by (simp add: on_RtlpAllocateHeapInternal_def Let_def case_prod_beta change_Size_guest
        get_return_address_dangling)








lemma san_guest_facts:
  "thread_current san_guest = Some san_thread"
  "write_arg_ok san_guest"
  "regs_read san_guest FDP_RSP_REGISTER = 0x7FF0"
  "args san_guest 3 = 0"
  "regs_read san_guest FDP_RAX_REGISTER = 0x5000"
  "write_reg_ok san_guest"
  by (simp_all add: san_guest_def regs_read_def registers_read_def)

lemma san_data_facts:
  "\<not> is_present (threads_reallocating san_data) san_thread"
  "\<not> is_present (threads_allocating san_data) san_thread"
  "ret_ctxs san_data k = None"
  "heap_datas san_data h = None"
  by (simp_all add: san_data_def is_present_def)

text \<open>
  Claim C10. With the current thread resolved, the entry callbacks of \<open>RtlFreeHeap\<close>,
  \<open>RtlSizeHeap\<close>, \<open>RtlSetUserValueHeap\<close> and \<open>RtlGetUserInfoHeap\<close> branch on
  whether the key (heap handle, base address, current thread) is tracked. When it is,
  they return at once and leave the guest and the plugin data, so also the tracking
  entry, as they are. When it is not, they write \<open>BaseAddress - 16\<close> to argument 2,
  which is then the value of that argument when the write goes through, and leave the
  other arguments alone; \<open>RtlFreeHeap\<close> leaves the tracked allocations as they are.
  This holds whatever the state of the reference to the reader.
\<close>

theorem free_heap_tracked_branch:
  "thread_current g = Some t \<Longrightarrow>
   key = \<lparr>HeapHandle = heap_handle, ctx = \<lparr>addr = base_address, thread = t\<rparr>\<rparr> \<Longrightarrow>
   (is_addr_tracked d key \<longrightarrow>
      on_RtlFreeHeap d g heap_handle base_address = (True, d, g) \<and>
      on_RtlSizeHeap reader d g heap_handle base_address = (returned 0, d, g) \<and>
      on_RtlSetUserValueHeap d g heap_handle base_address = (False, d, g) \<and>
      on_RtlGetUserInfoHeap d g heap_handle base_address = (False, d, g)) \<and>
   (\<not> is_addr_tracked d key \<longrightarrow>
      (let g' = snd (change_BaseAddress g 2 (base_address - 16)) in
        snd (snd (on_RtlFreeHeap d g heap_handle base_address)) = g' \<and>
        snd (snd (on_RtlSizeHeap reader d g heap_handle base_address)) = g' \<and>
        snd (snd (on_RtlSetUserValueHeap d g heap_handle base_address)) = g' \<and>
        snd (snd (on_RtlGetUserInfoHeap d g heap_handle base_address)) = g' \<and>
        heap_datas (fst (snd (on_RtlFreeHeap d g heap_handle base_address))) = heap_datas d \<and>
        (write_arg_ok g \<longrightarrow> args g' = (args g)(2 := base_address - 16) \<and>
           fst (on_RtlFreeHeap d g heap_handle base_address))))"
proof -
  assume t: "thread_current g = Some t"
    and key: "key = \<lparr>HeapHandle = heap_handle, ctx = \<lparr>addr = base_address, thread = t\<rparr>\<rparr>"
  have tracked: "on_RtlFreeHeap d g heap_handle base_address = (True, d, g) \<and>
      on_RtlSizeHeap reader d g heap_handle base_address = (returned 0, d, g) \<and>
      on_RtlSetUserValueHeap d g heap_handle base_address = (False, d, g) \<and>
      on_RtlGetUserInfoHeap d g heap_handle base_address = (False, d, g)"
    if "is_addr_tracked d key"
    using that t key
    by (simp add: on_RtlFreeHeap_def on_RtlSizeHeap_def on_RtlSetUserValueHeap_def
          on_RtlGetUserInfoHeap_def)
  have untracked: "(let g' = snd (change_BaseAddress g 2 (base_address - 16)) in
        snd (snd (on_RtlFreeHeap d g heap_handle base_address)) = g' \<and>
        snd (snd (on_RtlSizeHeap reader d g heap_handle base_address)) = g' \<and>
        snd (snd (on_RtlSetUserValueHeap d g heap_handle base_address)) = g' \<and>
        snd (snd (on_RtlGetUserInfoHeap d g heap_handle base_address)) = g' \<and>
        heap_datas (fst (snd (on_RtlFreeHeap d g heap_handle base_address))) = heap_datas d \<and>
        (write_arg_ok g \<longrightarrow> args g' = (args g)(2 := base_address - 16) \<and>
           fst (on_RtlFreeHeap d g heap_handle base_address)))"
    if nt: "\<not> is_addr_tracked d key"
  proof -
    from nt have none: "heap_datas d key = None" by (simp add: is_addr_tracked_def)
    then have erase: "(heap_datas d)(key := None) = heap_datas d" by (simp add: fun_upd_idem)
    have free: "snd (snd (on_RtlFreeHeap d g heap_handle base_address)) = snd (change_BaseAddress g 2 (base_address - 16))"
      "heap_datas (fst (snd (on_RtlFreeHeap d g heap_handle base_address))) = heap_datas d"
      "write_arg_ok g \<longrightarrow> fst (on_RtlFreeHeap d g heap_handle base_address)"
      using nt t key erase
      by (simp_all add: on_RtlFreeHeap_def Let_def case_prod_beta half_add_size_16
            change_BaseAddress_guest)
    have sz: "snd (snd (on_RtlSizeHeap reader d g heap_handle base_address)) = snd (change_BaseAddress g 2 (base_address - 16))"
      using nt t key
      by (simp add: on_RtlSizeHeap_def Let_def case_prod_beta half_add_size_16
            change_BaseAddress_guest split: option.splits behaviour.splits)
    have uv: "snd (snd (on_RtlSetUserValueHeap d g heap_handle base_address)) = snd (change_BaseAddress g 2 (base_address - 16))"
      "snd (snd (on_RtlGetUserInfoHeap d g heap_handle base_address)) = snd (change_BaseAddress g 2 (base_address - 16))"
      using nt t key
      by (simp_all add: on_RtlSetUserValueHeap_def on_RtlGetUserInfoHeap_def Let_def
            case_prod_beta half_add_size_16)
    show ?thesis
      unfolding Let_def using free sz uv by (simp add: change_BaseAddress_guest)
  qed
  show ?thesis using tracked untracked by blast
qed

theorem free_heap_tracked_branch_witness:
  "thread_current san_guest = Some san_thread \<and>
   is_addr_tracked san_tracking san_key \<and>
   on_RtlFreeHeap san_tracking san_guest 0xAA 0x5010 = (True, san_tracking, san_guest) \<and>
   on_RtlSizeHeap captured_reader san_tracking san_guest 0xAA 0x5010 = (returned 0, san_tracking, san_guest) \<and>
   \<not> is_addr_tracked san_data san_key \<and>
   write_arg_ok san_guest \<and>
   args (snd (snd (on_RtlFreeHeap san_data san_guest 0xAA 0x5010))) 2 = 0x5000 \<and>
   args (snd (snd (on_RtlGetUserInfoHeap san_data san_guest 0xAA 0x5010))) 2 = 0x5000"
proof -
  have t: "thread_current san_guest = Some san_thread"
    by (simp add: san_guest_def)
  have key: "san_key = \<lparr>HeapHandle = 0xAA, ctx = \<lparr>addr = 0x5010, thread = san_thread\<rparr>\<rparr>"
    by (simp add: san_key_def)
  have tr: "is_addr_tracked san_tracking san_key"
    by (simp add: is_addr_tracked_def san_tracking_def)
  have ntr: "\<not> is_addr_tracked san_data san_key"
    by (simp add: is_addr_tracked_def san_data_def)
  have w: "write_arg_ok san_guest"
    by (simp add: san_guest_def)
  have g': "args (snd (change_BaseAddress san_guest 2 (0x5010 - 16))) 2 = 0x5000"
    by (simp add: change_BaseAddress_guest w)
  from free_heap_tracked_branch [OF t key, of san_tracking captured_reader] tr
  have a: "on_RtlFreeHeap san_tracking san_guest 0xAA 0x5010 = (True, san_tracking, san_guest)"
    "on_RtlSizeHeap captured_reader san_tracking san_guest 0xAA 0x5010 = (returned 0, san_tracking, san_guest)"
    by blast+
  from free_heap_tracked_branch [OF t key, of san_data captured_reader] ntr
  have b: "snd (snd (on_RtlFreeHeap san_data san_guest 0xAA 0x5010)) = snd (change_BaseAddress san_guest 2 (0x5010 - 16))"
    "snd (snd (on_RtlGetUserInfoHeap san_data san_guest 0xAA 0x5010)) = snd (change_BaseAddress san_guest 2 (0x5010 - 16))"
    unfolding Let_def by blast+
  show ?thesis
    using t tr ntr w a b g' by simp
qed





lemma realloc_entry_marks:
  assumes t: "thread_current g = Some t"
  shows "is_present (threads_reallocating (fst (snd (on_RtlpReAllocateHeapInternal reader d g heap_handle base_address sz)))) t"
  using t
  by (simp add: on_RtlpReAllocateHeapInternal_def Let_def case_prod_beta is_present_def
        is_addr_tracked_def split: option.splits behaviour.splits)

text \<open>
  Claim C3, amended. The plugin keeps two sets of threads in flight, one for
  \<open>RtlpAllocateHeapInternal\<close> and one for \<open>RtlpReAllocateHeapInternal\<close>. An entry hit
  of \<open>RtlpAllocateHeapInternal\<close> on a thread in either set returns 0 and changes
  neither the guest nor the plugin data: no argument is rewritten and no return
  breakpoint is registered. An entry hit that passes marks the thread as allocating,
  and an entry hit of \<open>RtlpReAllocateHeapInternal\<close> marks it as reallocating, so that
  an allocation nested in either on the same thread is skipped.
\<close>

theorem alloc_reentrancy_filter:
  "thread_current g = Some t \<Longrightarrow>
   (is_present (threads_allocating d) t \<or> is_present (threads_reallocating d) t \<longrightarrow>
      on_RtlpAllocateHeapInternal reader d g heap_handle sz = (returned 0, d, g)) \<and>
   (\<not> is_present (threads_reallocating d) t \<and> \<not> is_present (threads_allocating d) t \<longrightarrow>
      (let d1 = fst (snd (on_RtlpAllocateHeapInternal reader d g heap_handle sz)) in
         is_present (threads_allocating d1) t \<and>
         (\<forall>g2 heap_handle2 sz2. thread_current g2 = Some t \<longrightarrow>
            on_RtlpAllocateHeapInternal reader d1 g2 heap_handle2 sz2 = (returned 0, d1, g2)))) \<and>
   (let d1 = fst (snd (on_RtlpReAllocateHeapInternal reader d g heap_handle base_address sz)) in
      is_present (threads_reallocating d1) t \<and>
      (\<forall>g2 heap_handle2 sz2. thread_current g2 = Some t \<longrightarrow>
         on_RtlpAllocateHeapInternal reader d1 g2 heap_handle2 sz2 = (returned 0, d1, g2)))"
proof -
  assume t: "thread_current g = Some t"
  have a: "on_RtlpAllocateHeapInternal reader d g heap_handle sz = (returned 0, d, g)"
    if "is_present (threads_allocating d) t \<or> is_present (threads_reallocating d) t"
    using alloc_entry_filtered [OF t that] .
  have b: "is_present (threads_allocating (fst (snd (on_RtlpAllocateHeapInternal reader d g heap_handle sz)))) t"
    if "\<not> is_present (threads_reallocating d) t \<and> \<not> is_present (threads_allocating d) t"
    using alloc_entry_marks [OF t] that by blast
  have c: "is_present (threads_reallocating (fst (snd (on_RtlpReAllocateHeapInternal reader d g heap_handle base_address sz)))) t"
    using realloc_entry_marks [OF t] .
  show ?thesis
    unfolding Let_def using a b c alloc_entry_filtered by blast
qed

theorem alloc_reentrancy_filter_witness:
  "thread_current san_guest = Some san_thread \<and>
   \<not> is_present (threads_reallocating san_data) san_thread \<and>
   \<not> is_present (threads_allocating san_data) san_thread \<and>
   is_present (threads_allocating (fst (snd san_entry))) san_thread \<and>
   on_RtlpAllocateHeapInternal captured_reader (fst (snd san_entry)) san_guest 0xBB 0x80 =
     (returned 0, fst (snd san_entry), san_guest) \<and>
   is_present (threads_reallocating san_reallocating) san_thread \<and>
   on_RtlpAllocateHeapInternal captured_reader san_reallocating san_guest 0xAA 0x40 =
     (returned 0, san_reallocating, san_guest)"
proof -
  note inst = alloc_reentrancy_filter [OF san_guest_facts(1), unfolded Let_def]
  have a: "is_present (threads_allocating (fst (snd san_entry))) san_thread"
    "on_RtlpAllocateHeapInternal captured_reader (fst (snd san_entry)) san_guest 0xBB 0x80 =
       (returned 0, fst (snd san_entry), san_guest)"
    using inst [of san_data captured_reader "0xAA" "0x40"] san_data_facts(1,2) san_guest_facts(1)
    unfolding san_entry_def by blast+
  have p: "is_present (threads_reallocating san_reallocating) san_thread"
    by (simp add: san_reallocating_def is_present_def san_thread_def)
  have b: "on_RtlpAllocateHeapInternal captured_reader san_reallocating san_guest 0xAA 0x40 =
             (returned 0, san_reallocating, san_guest)"
    using inst [of san_reallocating captured_reader "0xAA" "0x40"] p by blast
  show ?thesis
    using san_guest_facts(1) san_data_facts(1,2) a p b by simp
qed

text \<open>
  The claim as stated fails for \<open>RtlpReAllocateHeapInternal\<close>, whose entry callback is
  not filtered: on a thread already marked as reallocating it still rewrites the size
  argument (index 3).
\<close>

theorem realloc_not_filtered_counterexample:
  "thread_current san_guest = Some san_thread \<and>
   is_present (threads_reallocating san_reallocating) san_thread \<and>
   args san_guest 3 = 0 \<and>
   args (snd (snd (on_RtlpReAllocateHeapInternal captured_reader san_reallocating san_guest 0xAA 0x5010 0x40))) 3
     = 0x40 + 32"
proof -
  have p: "is_present (threads_reallocating san_reallocating) san_thread"
    by (simp add: san_reallocating_def is_present_def san_thread_def)
  have nt: "\<not> is_addr_tracked (san_reallocating\<lparr>threads_reallocating := X\<rparr>) k" for X k
    by (simp add: is_addr_tracked_def san_reallocating_def san_data_facts)
  have run: "snd (snd (on_RtlpReAllocateHeapInternal captured_reader san_reallocating san_guest 0xAA 0x5010 0x40)) =
      san_guest\<lparr>args := (args san_guest)(3 := 0x40 + 32)\<rparr>"
    by (simp add: on_RtlpReAllocateHeapInternal_def Let_def case_prod_beta nt san_guest_facts
          change_Size_guest add_size_32 split: behaviour.splits option.splits)
  show ?thesis
    using san_guest_facts(1,4) p by (simp add: run)
qed

end
